theory Spec2Isabelle
  imports Main
begin

section \<open>Strings of the source language\<close>

text \<open>
  A Python \<open>str\<close> is a sequence of Unicode code points, and the program's patterns are
  Cyrillic, so a string is a list of code points. ASCII literals are written through
  \<open>asc\<close>; Cyrillic ones as numerals, with a transliteration beside them.
\<close>

type_synonym ustring = "nat list"

definition asc :: "string \<Rightarrow> ustring" where
  "asc s = map of_char s"

text \<open>
  Whitespace as \<open>str.strip()\<close> and the pattern class \<open>\s\<close> see it (both use the
  interpreter's \<open>Py_UNICODE_ISSPACE\<close>): U+0009..U+000D, U+001C..U+0020, U+0085, U+00A0,
  U+1680, U+2000..U+200A, U+2028, U+2029, U+202F, U+205F, U+3000.
\<close>

definition is_space :: "nat \<Rightarrow> bool" where
  "is_space c \<longleftrightarrow>
     (9 \<le> c \<and> c \<le> 13) \<or> (28 \<le> c \<and> c \<le> 32) \<or> c = 133 \<or> c = 160 \<or> c = 5760 \<or>
     (8192 \<le> c \<and> c \<le> 8202) \<or> c = 8232 \<or> c = 8233 \<or> c = 8239 \<or> c = 8287 \<or> c = 12288"

text \<open>The callbacks that \<open>HTMLParser.feed\<close> makes, in order. The handlers of the source
  ignore the attribute list of a start tag, so the event does not carry it.\<close>

datatype event = StartTag ustring | EndTag ustring | Data ustring

text \<open>
  What the program takes from the Python runtime and not from its own source: the
  Unicode tables behind \<open>\d\<close>, \<open>int()\<close> and \<open>re.IGNORECASE\<close>, the case mappings of
  \<open>str.lower\<close> and \<open>str.capitalize\<close>, and the tokenizer of \<open>html.parser.HTMLParser\<close>.
  They are parameters of the model. Only the non-ASCII part of the digit and case tables
  is a parameter: on ASCII they are fixed below. \<open>feed\<close> gives the callbacks that
  \<open>HTMLParser.feed\<close> makes on a text, or \<open>None\<close> when the call raises an exception.
\<close>

record runtime =
  nd_other :: "nat \<Rightarrow> nat option"
  ci_other :: "nat \<Rightarrow> nat \<Rightarrow> bool"
  str_lower :: "ustring \<Rightarrow> ustring"
  str_capitalize :: "ustring \<Rightarrow> ustring"
  feed :: "ustring \<Rightarrow> event list option"

text \<open>The decimal value of a code point (\<open>Py_UNICODE_TODECIMAL\<close>); \<open>\d\<close> accepts exactly
  the code points that have one.\<close>

definition decimal :: "runtime \<Rightarrow> nat \<Rightarrow> nat option" where
  "decimal R c = (if 48 \<le> c \<and> c \<le> 57 then Some (c - 48) else nd_other R c)"

text \<open>Whether the pattern literal \<open>c\<close> accepts the character \<open>ch\<close> under
  \<open>re.IGNORECASE\<close>: the character itself, its ASCII case partner, or what the runtime's
  tables add.\<close>

definition ascii_lower :: "nat \<Rightarrow> nat" where
  "ascii_lower c = (if 65 \<le> c \<and> c \<le> 90 then c + 32 else c)"

definition ci_accepts :: "runtime \<Rightarrow> nat \<Rightarrow> nat \<Rightarrow> bool" where
  "ci_accepts R c ch \<longleftrightarrow>
     ch = c \<or> (c < 128 \<and> ch < 128 \<and> ascii_lower ch = ascii_lower c) \<or> ci_other R c ch"

definition strip :: "ustring \<Rightarrow> ustring" where
  "strip s = rev (dropWhile is_space (rev (dropWhile is_space s)))"

fun join_sp :: "ustring list \<Rightarrow> ustring" where
  "join_sp [] = []"
| "join_sp [x] = x"
| "join_sp (x # y # ys) = x @ 32 # join_sp (y # ys)"

text \<open>\<open>int(s)\<close> on a string of decimal digits; \<open>None\<close> stands for the \<open>ValueError\<close>
  that any other string of the kind the patterns could capture would raise.\<close>

fun digits_value :: "runtime \<Rightarrow> int \<Rightarrow> ustring \<Rightarrow> int option" where
  "digits_value R acc [] = Some acc"
| "digits_value R acc (c # cs) =
     (case decimal R c of None \<Rightarrow> None
      | Some d \<Rightarrow> digits_value R (10 * acc + int d) cs)"

definition py_int :: "runtime \<Rightarrow> ustring \<Rightarrow> int option" where
  "py_int R s = (if s = [] then None else digits_value R 0 s)"

text \<open>\<open>s[a:b]\<close> for integer bounds, negative ones counted from the end as Python does.\<close>

definition py_slice :: "'a list \<Rightarrow> int \<Rightarrow> int \<Rightarrow> 'a list" where
  "py_slice s a b =
     (let n = int (length s);
          a' = (if a < 0 then max 0 (a + n) else min a n);
          b' = (if b < 0 then max 0 (b + n) else min b n)
      in take (nat (b' - a')) (drop (nat a') s))"

section \<open>The regular expressions of the source\<close>

text \<open>
  The fragment of Python's \<open>re\<close> that the program's patterns use: literals and character
  sets (with ranges, \<open>\s\<close> and \<open>\d\<close>), negated sets, sequence, alternation, optional
  parts, greedy bounded repetition of a character set, capture groups and \<open>$\<close>.
  Matching is the backtracking search of \<open>re\<close>: \<open>rmatch\<close> lists every way the pattern
  matches at the start of the subject, in the order in which \<open>re\<close> tries them, so the
  head of the list is the match that \<open>re\<close> reports.
\<close>

datatype citem = Lit nat | Range nat nat | Space | Digit

datatype cset = In "citem list" | NotIn "citem list"

datatype rx =
    Chr cset
  | Seq rx rx
  | Alt rx rx
  | Eps
  | Rep nat "nat option" cset
  | Group nat rx
  | Eos

type_synonym caps = "nat \<Rightarrow> ustring option"

fun item_ok :: "runtime \<Rightarrow> bool \<Rightarrow> citem \<Rightarrow> nat \<Rightarrow> bool" where
  "item_ok R ic (Lit c) ch = (if ic then ci_accepts R c ch else ch = c)"
| "item_ok R ic (Range lo hi) ch = (lo \<le> ch \<and> ch \<le> hi)"
| "item_ok R ic Space ch = is_space ch"
| "item_ok R ic Digit ch = (decimal R ch \<noteq> None)"

fun cset_ok :: "runtime \<Rightarrow> bool \<Rightarrow> cset \<Rightarrow> nat \<Rightarrow> bool" where
  "cset_ok R ic (In its) ch = list_ex (\<lambda>it. item_ok R ic it ch) its"
| "cset_ok R ic (NotIn its) ch = (\<not> list_ex (\<lambda>it. item_ok R ic it ch) its)"

text \<open>Greedy repetition of a character test, between \<open>lo\<close> and \<open>hi\<close> times (\<open>None\<close>: no
  upper bound): the remainders after each admissible number of characters, longest
  match first.\<close>

fun rep_greedy :: "(nat \<Rightarrow> bool) \<Rightarrow> nat \<Rightarrow> nat option \<Rightarrow> ustring \<Rightarrow> ustring list" where
  "rep_greedy P lo hi [] = (if lo = 0 then [[]] else [])"
| "rep_greedy P lo hi (c # t) =
     (if P c \<and> hi \<noteq> Some 0 then rep_greedy P (lo - 1) (map_option (\<lambda>h. h - 1) hi) t else [])
     @ (if lo = 0 then [c # t] else [])"

fun rmatch :: "runtime \<Rightarrow> bool \<Rightarrow> rx \<Rightarrow> ustring \<Rightarrow> caps \<Rightarrow> (caps \<times> ustring) list" where
  "rmatch R ic (Chr k) s cs =
     (case s of [] \<Rightarrow> [] | c # t \<Rightarrow> if cset_ok R ic k c then [(cs, t)] else [])"
| "rmatch R ic (Seq a b) s cs =
     concat (map (\<lambda>p. rmatch R ic b (snd p) (fst p)) (rmatch R ic a s cs))"
| "rmatch R ic (Alt a b) s cs = rmatch R ic a s cs @ rmatch R ic b s cs"
| "rmatch R ic Eps s cs = [(cs, s)]"
| "rmatch R ic (Rep lo hi k) s cs = map (\<lambda>t. (cs, t)) (rep_greedy (cset_ok R ic k) lo hi s)"
| "rmatch R ic (Group n a) s cs =
     map (\<lambda>p. ((fst p)(n \<mapsto> take (length s - length (snd p)) s), snd p)) (rmatch R ic a s cs)"
| "rmatch R ic Eos s cs = (if s = [] \<or> s = [10] then [(cs, s)] else [])"

text \<open>\<open>rx.search(s)\<close>: the leftmost position at which the pattern matches, with the
  groups of the first match there and the text after it.\<close>

fun search_from :: "runtime \<Rightarrow> bool \<Rightarrow> rx \<Rightarrow> nat \<Rightarrow> ustring \<Rightarrow> (nat \<times> caps \<times> ustring) option" where
  "search_from R ic r i [] =
     (case rmatch R ic r [] Map.empty of
        (cs, t) # _ \<Rightarrow> Some (i, cs, t)
      | [] \<Rightarrow> None)"
| "search_from R ic r i (c # s) =
     (case rmatch R ic r (c # s) Map.empty of
        (cs, t) # _ \<Rightarrow> Some (i, cs, t)
      | [] \<Rightarrow> search_from R ic r (Suc i) s)"

definition re_search :: "runtime \<Rightarrow> bool \<Rightarrow> rx \<Rightarrow> ustring \<Rightarrow> (nat \<times> caps \<times> ustring) option" where
  "re_search R ic r s = search_from R ic r 0 s"

text \<open>Pattern syntax: a literal, a literal word, an optional part (\<open>x?\<close>, greedy).\<close>

definition lit :: "nat \<Rightarrow> rx" where
  "lit c = Chr (In [Lit c])"

fun word :: "ustring \<Rightarrow> rx" where
  "word [] = Eps"
| "word [c] = lit c"
| "word (c # cs) = Seq (lit c) (word cs)"

definition opt :: "rx \<Rightarrow> rx" where
  "opt r = Alt r Eps"

fun seqs :: "rx list \<Rightarrow> rx" where
  "seqs [] = Eps"
| "seqs [r] = r"
| "seqs (r # rs) = Seq r (seqs rs)"

text \<open>
  \<open>MONTHS\<close>, in the order of the dictionary literal, which is the order in which
  \<open>MONTH_COMPILED\<close> is filled and later searched. The letters are written as code points:
  \<open>1072\<close> a, \<open>1073\<close> b, \<open>1074\<close> v, \<open>1075\<close> g, \<open>1076\<close> d, \<open>1077\<close> e, \<open>1080\<close> i,
  \<open>1081\<close> short i, \<open>1082\<close> k, \<open>1083\<close> l, \<open>1084\<close> m, \<open>1085\<close> n, \<open>1086\<close> o, \<open>1087\<close> p,
  \<open>1088\<close> r, \<open>1089\<close> s, \<open>1090\<close> t, \<open>1091\<close> u, \<open>1092\<close> f, \<open>1100\<close> soft sign, \<open>1102\<close> yu,
  \<open>1103\<close> ya; the capitals are 32 lower. In transliteration the twelve patterns are
  \<^verbatim>\<open>yanv(?:ar'|arya|\.?)\<close>, \<^verbatim>\<open>fevr?(?:al'|alya|\.?)\<close>, \<^verbatim>\<open>mart(?:a)?\<close>,
  \<^verbatim>\<open>aprel(?:'|ya|\.?)\<close>, \<^verbatim>\<open>ma[j ya]\<close>, \<^verbatim>\<open>iyun(?:'|ya)\<close>, \<^verbatim>\<open>iyul(?:'|ya)\<close>,
  \<^verbatim>\<open>avgust(?:a)?\<close>, \<^verbatim>\<open>sentyabr(?:'|ya)\<close>, \<^verbatim>\<open>oktyabr(?:'|ya)\<close>,
  \<^verbatim>\<open>noyabr(?:'|ya)\<close> and \<^verbatim>\<open>dekabr(?:'|ya)\<close>, where \<open>'\<close> is the soft sign.
\<close>

definition soft_or_ya :: rx where
  "soft_or_ya = Alt (lit 1100) (lit 1103)"

definition MONTHS :: "(int \<times> rx \<times> ustring) list" where
  "MONTHS =
    [ (1, Seq (word [1103, 1085, 1074])
            (Alt (word [1072, 1088, 1100]) (Alt (word [1072, 1088, 1103]) (opt (lit 46)))),
          [1071, 1085, 1074, 1072, 1088, 1100]),
      (2, seqs [word [1092, 1077, 1074], opt (lit 1088),
            Alt (word [1072, 1083, 1100]) (Alt (word [1072, 1083, 1103]) (opt (lit 46)))],
          [1060, 1077, 1074, 1088, 1072, 1083, 1100]),
      (3, Seq (word [1084, 1072, 1088, 1090]) (opt (lit 1072)),
          [1052, 1072, 1088, 1090]),
      (4, Seq (word [1072, 1087, 1088, 1077, 1083])
            (Alt (lit 1100) (Alt (lit 1103) (opt (lit 46)))),
          [1040, 1087, 1088, 1077, 1083, 1100]),
      (5, Seq (word [1084, 1072]) (Chr (In [Lit 1081, Lit 1103])),
          [1052, 1072, 1081]),
      (6, Seq (word [1080, 1102, 1085]) soft_or_ya,
          [1048, 1102, 1085, 1100]),
      (7, Seq (word [1080, 1102, 1083]) soft_or_ya,
          [1048, 1102, 1083, 1100]),
      (8, Seq (word [1072, 1074, 1075, 1091, 1089, 1090]) (opt (lit 1072)),
          [1040, 1074, 1075, 1091, 1089, 1090]),
      (9, Seq (word [1089, 1077, 1085, 1090, 1103, 1073, 1088]) soft_or_ya,
          [1057, 1077, 1085, 1090, 1103, 1073, 1088, 1100]),
      (10, Seq (word [1086, 1082, 1090, 1103, 1073, 1088]) soft_or_ya,
          [1054, 1082, 1090, 1103, 1073, 1088, 1100]),
      (11, Seq (word [1085, 1086, 1103, 1073, 1088]) soft_or_ya,
          [1053, 1086, 1103, 1073, 1088, 1100]),
      (12, Seq (word [1076, 1077, 1082, 1072, 1073, 1088]) soft_or_ya,
          [1044, 1077, 1082, 1072, 1073, 1088, 1100]) ]"

text \<open>\<open>MONTH_COMPILED\<close>: one \<open>(num, name, rx)\<close> per entry of \<open>MONTHS\<close>, compiled with
  \<open>re.I | re.U\<close>; the flag is passed where the pattern is searched.\<close>

definition MONTH_COMPILED :: "(int \<times> ustring \<times> rx) list" where
  "MONTH_COMPILED = map (\<lambda>(num, pat, name). (num, name, pat)) MONTHS"

text \<open>\<open>YEAR_RE = (20\d{2})\<close>, without flags.\<close>

definition YEAR_RE :: rx where
  "YEAR_RE = Group 1 (seqs [lit 50, lit 48, Rep 2 (Some 2) (In [Digit])])"

text \<open>The pattern of the metadata tag, searched with \<open>re.I\<close>:
  \<^verbatim>\<open><meta\s+name=["\']report-month["\']\s+content=["\'](\d{4})-(\d{2})["\']\<close>\<close>

definition quote :: rx where
  "quote = Chr (In [Lit 34, Lit 39])"

definition meta_rx :: rx where
  "meta_rx = seqs
     [word (asc ''<meta''), Rep 1 None (In [Space]),
      word (asc ''name=''), quote, word (asc ''report-month''), quote,
      Rep 1 None (In [Space]),
      word (asc ''content=''), quote,
      Group 1 (Rep 4 (Some 4) (In [Digit])), lit 45, Group 2 (Rep 2 (Some 2) (In [Digit])),
      quote]"

text \<open>The pattern applied to the title, without flags; \<open>8211\<close> is the en dash, \<open>1040\<close>
  to \<open>1071\<close> the Cyrillic capitals, \<open>1025\<close> the capital Yo:
  \<^verbatim>\<open>[:\-en-dash]\s*([A-Ya A-Z Yo][^|<>()]{2,})$\<close>\<close>

definition title_rx :: rx where
  "title_rx = seqs
     [Chr (In [Lit 58, Lit 45, Lit 8211]), Rep 0 None (In [Space]),
      Group 1 (Seq (Chr (In [Range 1040 1071, Range 65 90, Lit 1025]))
                   (Rep 2 None (NotIn [Lit 124, Lit 60, Lit 62, Lit 40, Lit 41]))),
      Eos]"

section \<open>SimpleTitleH1Parser\<close>

record parser =
  in_title :: bool
  in_h1 :: bool
  title_text :: "ustring list"
  h1_text :: "ustring list"
  all_text :: "ustring list"

definition parser_init :: parser where
  "parser_init = \<lparr>in_title = False, in_h1 = False, title_text = [], h1_text = [], all_text = []\<rparr>"

definition handle_starttag :: "runtime \<Rightarrow> parser \<Rightarrow> ustring \<Rightarrow> parser" where
  "handle_starttag R p tag =
     (if str_lower R tag = asc ''title'' then p\<lparr>in_title := True\<rparr>
      else if str_lower R tag = asc ''h1'' then p\<lparr>in_h1 := True\<rparr>
      else p)"

definition handle_endtag :: "runtime \<Rightarrow> parser \<Rightarrow> ustring \<Rightarrow> parser" where
  "handle_endtag R p tag =
     (if str_lower R tag = asc ''title'' then p\<lparr>in_title := False\<rparr>
      else if str_lower R tag = asc ''h1'' then p\<lparr>in_h1 := False\<rparr>
      else p)"

definition handle_data :: "parser \<Rightarrow> ustring \<Rightarrow> parser" where
  "handle_data p data =
     (let s = strip data in
      if s = [] then p
      else
        let p1 = p\<lparr>all_text := all_text p @ [s]\<rparr>;
            p2 = (if in_title p1 then p1\<lparr>title_text := title_text p1 @ [s]\<rparr> else p1)
        in (if in_h1 p2 then p2\<lparr>h1_text := h1_text p2 @ [s]\<rparr> else p2))"

fun handle :: "runtime \<Rightarrow> parser \<Rightarrow> event \<Rightarrow> parser" where
  "handle R p (StartTag tag) = handle_starttag R p tag"
| "handle R p (EndTag tag) = handle_endtag R p tag"
| "handle R p (Data d) = handle_data p d"

text \<open>The exceptions that can leave the functions of the source: \<open>int\<close> raises
  \<open>ValueError\<close> on a string that is not a number and \<open>TypeError\<close> on \<open>None\<close>;
  \<open>FeedError\<close> stands for whatever exception \<open>HTMLParser.feed\<close> raises. The source
  catches none of them.\<close>

datatype error = ValueError | TypeError | FeedError

text \<open>\<open>p = SimpleTitleH1Parser(); p.feed(text)\<close>: the handlers run over the callbacks
  of the tokenizer, in order. The handlers themselves have no raising path; an exception
  of the tokenizer leaves \<open>feed\<close> and the function that called it.\<close>

definition run_events :: "runtime \<Rightarrow> parser \<Rightarrow> event list \<Rightarrow> parser" where
  "run_events R p evs = foldl (handle R) p evs"

definition parse :: "runtime \<Rightarrow> ustring \<Rightarrow> error + parser" where
  "parse R text =
     (case feed R text of
        None \<Rightarrow> Inl FeedError
      | Some evs \<Rightarrow> Inr (run_events R parser_init evs))"

section \<open>Name and period extraction\<close>

text \<open>\<open>extract_name_from_html\<close>. Group 1 takes part in every match of the title pattern
  (lemma \<open>title_group_present\<close> below), so \<open>m.group(1)\<close> is always a string and the
  branch for an absent group is never taken.\<close>

definition extract_name_from_html :: "runtime \<Rightarrow> ustring \<Rightarrow> error + ustring option" where
  "extract_name_from_html R text =
     (case parse R text of
        Inl e \<Rightarrow> Inl e
      | Inr p \<Rightarrow>
          Inr (let title = strip (join_sp (title_text p))
               in if title \<noteq> [] then
                    (case re_search R False title_rx title of
                       Some (_, cs, _) \<Rightarrow> Some (strip (case cs 1 of Some g \<Rightarrow> g | None \<Rightarrow> []))
                     | None \<Rightarrow> Some title)
                  else
                    let h1 = strip (join_sp (h1_text p))
                    in if h1 \<noteq> [] then Some h1 else None))"

text \<open>\<open>int(m.group(n))\<close>: a group that took no part in the match is \<open>None\<close>, on which
  \<open>int\<close> raises \<open>TypeError\<close>.\<close>

definition int_group :: "runtime \<Rightarrow> caps \<Rightarrow> nat \<Rightarrow> error + int" where
  "int_group R cs n =
     (case cs n of None \<Rightarrow> Inl TypeError
      | Some g \<Rightarrow> (case py_int R g of None \<Rightarrow> Inl ValueError | Some v \<Rightarrow> Inr v))"

text \<open>The loop over \<open>MONTH_COMPILED\<close> with its \<open>break\<close>: the first entry whose pattern
  is found in the blob, with the offset of the match.\<close>

fun find_month :: "runtime \<Rightarrow> (int \<times> ustring \<times> rx) list \<Rightarrow> ustring \<Rightarrow> (int \<times> ustring \<times> nat) option" where
  "find_month R [] blob = None"
| "find_month R ((num, name, r) # rest) blob =
     (case re_search R True r blob of
        Some (pos, _, _) \<Rightarrow> Some (num, name, pos)
      | None \<Rightarrow> find_month R rest blob)"

text \<open>The second half of \<open>extract_month_year\<close>: the search in the visible text.\<close>

definition heuristic_month_year ::
    "runtime \<Rightarrow> ustring \<Rightarrow> error + (int option \<times> int option \<times> ustring option)" where
  "heuristic_month_year R text =
     (case parse R text of
        Inl e \<Rightarrow> Inl e
      | Inr p \<Rightarrow>
          let blob = join_sp (all_text p)
          in case find_month R MONTH_COMPILED blob of
               None \<Rightarrow> Inr (None, None, None)
             | Some (found_month, found_month_name, pos) \<Rightarrow>
                 let window_start = max 0 (int pos - 40);
                     window_end = min (int (length blob)) (int pos + 40);
                     around = py_slice blob window_start window_end
                 in (case re_search R False YEAR_RE around of
                       None \<Rightarrow> Inr (Some found_month, None, Some found_month_name)
                     | Some (_, cs, _) \<Rightarrow>
                         (case int_group R cs 1 of
                            Inl e \<Rightarrow> Inl e
                          | Inr year \<Rightarrow> Inr (Some found_month, Some year, Some found_month_name))))"

text \<open>\<open>extract_month_year\<close> returns \<open>(month_num, year, month_pretty)\<close>.\<close>

definition extract_month_year ::
    "runtime \<Rightarrow> ustring \<Rightarrow> error + (int option \<times> int option \<times> ustring option)" where
  "extract_month_year R text =
     (case re_search R True meta_rx text of
        Some (_, cs, _) \<Rightarrow>
          (case int_group R cs 1 of
             Inl e \<Rightarrow> Inl e
           | Inr y \<Rightarrow>
               (case int_group R cs 2 of
                  Inl e \<Rightarrow> Inl e
                | Inr m \<Rightarrow>
                    let pretty = (case map_of MONTHS m of
                                    Some (pat, name) \<Rightarrow> Some name
                                  | None \<Rightarrow> None)
                    in Inr (Some m, Some y, pretty)))
      | None \<Rightarrow> heuristic_month_year R text)"

text \<open>\<open>re.split(r"[_\-\.]+", stem)\<close>: the pieces between the maximal runs of separator
  characters, empty pieces at the ends included.\<close>

definition is_sep :: "nat \<Rightarrow> bool" where
  "is_sep c \<longleftrightarrow> c = 95 \<or> c = 45 \<or> c = 46"

fun split_runs :: "(nat \<Rightarrow> bool) \<Rightarrow> bool \<Rightarrow> ustring \<Rightarrow> ustring \<Rightarrow> ustring list" where
  "split_runs P in_run cur [] = [cur]"
| "split_runs P in_run cur (c # cs) =
     (if P c then (if in_run then split_runs P True [] cs else cur # split_runs P True [] cs)
      else split_runs P False (cur @ [c]) cs)"

definition re_split_runs :: "(nat \<Rightarrow> bool) \<Rightarrow> ustring \<Rightarrow> ustring list" where
  "re_split_runs P s = split_runs P False [] s"

text \<open>\<open>humanize_from_filename\<close>, on the stem of the path.\<close>

definition humanize_from_filename :: "runtime \<Rightarrow> ustring \<Rightarrow> ustring" where
  "humanize_from_filename R stem =
     (let parts = re_split_runs is_sep stem
      in join_sp (map (str_capitalize R) (filter (\<lambda>s. s \<noteq> []) parts)))"

text \<open>\<open>re.sub(r"\s+", " ", name)\<close>: every maximal run of whitespace becomes one space.\<close>

fun collapse_ws :: "bool \<Rightarrow> ustring \<Rightarrow> ustring" where
  "collapse_ws in_run [] = []"
| "collapse_ws in_run (c # cs) =
     (if is_space c then (if in_run then collapse_ws True cs else 32 # collapse_ws True cs)
      else c # collapse_ws False cs)"

text \<open>The two lines of \<open>main\<close> that settle the name of one document: Python's \<open>or\<close>
  takes the right operand when the left one is \<open>None\<close> or the empty string.\<close>

definition display_name :: "runtime \<Rightarrow> ustring \<Rightarrow> ustring \<Rightarrow> error + ustring" where
  "display_name R text stem =
     (case extract_name_from_html R text of
        Inl e \<Rightarrow> Inl e
      | Inr found \<Rightarrow>
          let name = (case found of
                        None \<Rightarrow> humanize_from_filename R stem
                      | Some n \<Rightarrow> if n = [] then humanize_from_filename R stem else n)
          in Inr (strip (collapse_ws False name)))"

text \<open>\<open>Path.stem\<close> of \<open>pathlib\<close>: the file name up to its last full stop, when that stop
  is neither the first nor the last character of the name.\<close>

definition rfind :: "nat \<Rightarrow> ustring \<Rightarrow> nat option" where
  "rfind c s =
     (if c \<in> set s then Some (length s - 1 - length (takeWhile (\<lambda>x. x \<noteq> c) (rev s)))
      else None)"

definition path_stem :: "ustring \<Rightarrow> ustring" where
  "path_stem file_name =
     (case rfind 46 file_name of
        Some i \<Rightarrow> if 0 < i \<and> i < length file_name - 1 then take i file_name else file_name
      | None \<Rightarrow> file_name)"

text \<open>One entry of the index, as the body of the loop in \<open>main\<close> appends it for the file
  of a given name and text: the name is settled first, then the period. An exception of
  either step leaves \<open>main\<close>, and no index is written.\<close>

record item =
  name :: ustring
  url :: ustring
  month :: "int option"
  month_name :: "ustring option"
  year :: "int option"

definition make_item :: "runtime \<Rightarrow> ustring \<Rightarrow> ustring \<Rightarrow> error + item" where
  "make_item R file_name text =
     (case display_name R text (path_stem file_name) of
        Inl e \<Rightarrow> Inl e
      | Inr shown \<Rightarrow>
          (case extract_month_year R text of
             Inl e \<Rightarrow> Inl e
           | Inr (m, y, mn) \<Rightarrow>
               Inr \<lparr>name = shown,
                    url = asc ''reports/'' @ file_name,
                    month = m, month_name = mn, year = y\<rparr>))"

section \<open>A runtime for running the model\<close>

text \<open>
  A concrete runtime on which the definitions can be evaluated: ASCII digits, the case
  pairs of the ASCII and the Russian letters, and a small tokenizer. The tokenizer cuts
  a document into text, start tags \<open><name ...>\<close> and end tags \<open></name>\<close>, with the tag
  names in lower case. On the example documents of this theory (plain text without
  \<open>&\<close>, tags with or without attributes, no comments, scripts or declarations) these are
  the callbacks that \<open>HTMLParser.feed\<close> makes; it is not a model of \<open>html.parser\<close>
  beyond them, and it never raises.
\<close>

definition basic_lower :: "nat \<Rightarrow> nat" where
  "basic_lower c =
     (if (65 \<le> c \<and> c \<le> 90) \<or> (1040 \<le> c \<and> c \<le> 1071) then c + 32
      else if c = 1025 then 1105 else c)"

definition basic_upper :: "nat \<Rightarrow> nat" where
  "basic_upper c =
     (if (97 \<le> c \<and> c \<le> 122) \<or> (1072 \<le> c \<and> c \<le> 1103) then c - 32
      else if c = 1105 then 1025 else c)"

definition basic_capitalize :: "ustring \<Rightarrow> ustring" where
  "basic_capitalize s = (case s of [] \<Rightarrow> [] | c # t \<Rightarrow> basic_upper c # map basic_lower t)"

definition tag_event :: "ustring \<Rightarrow> event" where
  "tag_event body =
     (let tag_name = (\<lambda>s. map basic_lower (takeWhile (\<lambda>c. \<not> is_space c \<and> c \<noteq> 47) s))
      in case body of
           [] \<Rightarrow> Data [60, 62]
         | c # t \<Rightarrow> if c = 47 then EndTag (tag_name t) else StartTag (tag_name body))"

fun tokens :: "bool \<Rightarrow> ustring \<Rightarrow> ustring \<Rightarrow> event list" where
  "tokens in_tag acc [] = (if in_tag \<or> acc = [] then [] else [Data acc])"
| "tokens in_tag acc (c # cs) =
     (if in_tag then
        (if c = 62 then tag_event acc # tokens False [] cs else tokens True (acc @ [c]) cs)
      else
        (if c = 60 then (if acc = [] then [] else [Data acc]) @ tokens True [] cs
         else tokens False (acc @ [c]) cs))"

definition basic :: runtime where
  "basic = \<lparr>nd_other = (\<lambda>c. None),
            ci_other = (\<lambda>c ch. basic_lower ch = basic_lower c),
            str_lower = map basic_lower,
            str_capitalize = basic_capitalize,
            feed = (\<lambda>s. Some (tokens False [] s))\<rparr>"

section \<open>Readings of the patterns\<close>

text \<open>
  What a pattern accepts, read off its structure: \<open>matches R ic r w t\<close> says that \<open>r\<close>
  can consume the characters \<open>w\<close> when \<open>t\<close> is what follows them (only \<open>$\<close> looks at
  \<open>t\<close>). The search above is proved to find exactly these matches.
\<close>

fun matches :: "runtime \<Rightarrow> bool \<Rightarrow> rx \<Rightarrow> ustring \<Rightarrow> ustring \<Rightarrow> bool" where
  "matches R ic (Chr k) w t = (\<exists>c. w = [c] \<and> cset_ok R ic k c)"
| "matches R ic (Seq a b) w t = (\<exists>u v. w = u @ v \<and> matches R ic a u (v @ t) \<and> matches R ic b v t)"
| "matches R ic (Alt a b) w t = (matches R ic a w t \<or> matches R ic b w t)"
| "matches R ic Eps w t = (w = [])"
| "matches R ic (Rep lo hi k) w t =
     (lo \<le> length w \<and> (case hi of None \<Rightarrow> True | Some h \<Rightarrow> length w \<le> h) \<and>
      list_all (cset_ok R ic k) w)"
| "matches R ic (Group n a) w t = matches R ic a w t"
| "matches R ic Eos w t = (w = [] \<and> (t = [] \<or> t = [10]))"

section \<open>The shape of the metadata tag\<close>

text \<open>
  The tag that the structured-metadata check is meant to recognise, written out as a
  decomposition of the text at which it begins, with the digits \<open>ys\<close> of its year and \<open>ms\<close>
  of its month: the word \<open><meta\<close>, whitespace, \<open>name=\<close> with the quoted
  value \<open>report-month\<close>, whitespace and nothing else, \<open>content=\<close> with a quoted value of
  four digits, a hyphen and two digits. Letters are compared without regard to case and
  either quote character may stand at each of the four places.
\<close>

definition ci_word :: "runtime \<Rightarrow> ustring \<Rightarrow> ustring \<Rightarrow> bool" where
  "ci_word R w s \<longleftrightarrow> list_all2 (ci_accepts R) w s"

definition is_quote :: "runtime \<Rightarrow> nat \<Rightarrow> bool" where
  "is_quote R q \<longleftrightarrow> ci_accepts R 34 q \<or> ci_accepts R 39 q"

definition is_digit :: "runtime \<Rightarrow> nat \<Rightarrow> bool" where
  "is_digit R c \<longleftrightarrow> decimal R c \<noteq> None"

definition tag_with :: "runtime \<Rightarrow> ustring \<Rightarrow> ustring \<Rightarrow> ustring \<Rightarrow> bool" where
  "tag_with R ys ms s \<longleftrightarrow>
     (\<exists>lt ws1 nm q1 rm q2 ws2 ct q3 h q4 rest.
        s = lt @ ws1 @ nm @ [q1] @ rm @ [q2] @ ws2 @ ct @ [q3] @ ys @ [h] @ ms @ [q4] @ rest \<and>
        ci_word R (asc ''<meta'') lt \<and>
        ws1 \<noteq> [] \<and> list_all is_space ws1 \<and>
        ci_word R (asc ''name='') nm \<and> is_quote R q1 \<and>
        ci_word R (asc ''report-month'') rm \<and> is_quote R q2 \<and>
        ws2 \<noteq> [] \<and> list_all is_space ws2 \<and>
        ci_word R (asc ''content='') ct \<and> is_quote R q3 \<and>
        length ys = 4 \<and> list_all (is_digit R) ys \<and> ci_accepts R 45 h \<and>
        length ms = 2 \<and> list_all (is_digit R) ms \<and> is_quote R q4)"

definition tag_shape :: "runtime \<Rightarrow> ustring \<Rightarrow> bool" where
  "tag_shape R s \<longleftrightarrow> (\<exists>ys ms. tag_with R ys ms s)"

text \<open>A table of case-insensitive matches in which no whitespace character is taken for
  the letter \<open>n\<close> or the letter \<open>c\<close>, as in every version of Python: then the whitespace
  between the parts of a tag ends where the next attribute begins.\<close>

definition plain_spaces :: "runtime \<Rightarrow> bool" where
  "plain_spaces R \<longleftrightarrow> (\<forall>c. is_space c \<longrightarrow> \<not> ci_accepts R 110 c \<and> \<not> ci_accepts R 99 c)"

text \<open>A pattern without capture groups.\<close>

fun no_groups :: "rx \<Rightarrow> bool" where
  "no_groups (Seq a b) = (no_groups a \<and> no_groups b)"
| "no_groups (Alt a b) = (no_groups a \<and> no_groups b)"
| "no_groups (Group n a) = False"
| "no_groups r = True"

section \<open>The trailing pattern of a title\<close>

text \<open>
  The pattern at the end of a title: a separator (a colon, a hyphen or an en dash),
  whitespace, a capital letter, and at least two more characters none of which is \<open>|\<close>,
  \<open><\<close>, \<open>>\<close>, \<open>(\<close> or \<open>)\<close>, up to the end of the title. The capital letters are those
  that the pattern of the source lists: \<open>A\<close> to \<open>Z\<close>, the Russian capitals U+0410 to
  U+042F and U+0401; other capitals, Cyrillic or Latin, are not among them. The parameter
  \<open>k\<close> is the least number of whitespace characters that must follow the separator: the
  specification asks for whitespace (\<open>k = 1\<close>), the pattern of the source has \<open>\s*\<close>
  (\<open>k = 0\<close>).
\<close>

definition is_title_sep :: "nat \<Rightarrow> bool" where
  "is_title_sep c \<longleftrightarrow> c = 58 \<or> c = 45 \<or> c = 8211"

definition is_capital :: "nat \<Rightarrow> bool" where
  "is_capital c \<longleftrightarrow> (1040 \<le> c \<and> c \<le> 1071) \<or> (65 \<le> c \<and> c \<le> 90) \<or> c = 1025"

definition is_plain :: "nat \<Rightarrow> bool" where
  "is_plain c \<longleftrightarrow> c \<noteq> 124 \<and> c \<noteq> 60 \<and> c \<noteq> 62 \<and> c \<noteq> 40 \<and> c \<noteq> 41"

definition trailing_pattern :: "nat \<Rightarrow> ustring \<Rightarrow> bool" where
  "trailing_pattern k s =
     (case s of
        [] \<Rightarrow> False
      | sep # t \<Rightarrow>
          is_title_sep sep \<and> k \<le> length (takeWhile is_space t) \<and>
          (case dropWhile is_space t of
             [] \<Rightarrow> False
           | cap # rest \<Rightarrow> is_capital cap \<and> 2 \<le> length rest \<and> list_all is_plain rest))"

text \<open>The suffixes of a string, longest first: the places where a pattern can begin, from
  left to right.\<close>

fun tails :: "'a list \<Rightarrow> 'a list list" where
  "tails [] = [[]]"
| "tails (x # xs) = (x # xs) # tails xs"

text \<open>The part of the title pattern after the separator and the whitespace: the group and
  the end of the string.\<close>

definition title_tail :: rx where
  "title_tail = Seq (Group 1 (Seq (Chr (In [Range 1040 1071, Range 65 90, Lit 1025]))
                   (Rep 2 None (NotIn [Lit 124, Lit 60, Lit 62, Lit 40, Lit 41])))) Eos"

section \<open>The segments of a file name\<close>

text \<open>
  The non-empty segments of a stem between runs of underscore, hyphen and full stop,
  taken directly: skip separators, take characters up to the next separator, and go on
  with what is left.
\<close>

function segments :: "ustring \<Rightarrow> ustring list" where
  "segments s =
     (case dropWhile is_sep s of
        [] \<Rightarrow> []
      | c # r \<Rightarrow> (c # takeWhile (\<lambda>x. \<not> is_sep x) r) # segments (dropWhile (\<lambda>x. \<not> is_sep x) r))"
  by pat_completeness auto
termination
proof (relation "measure length")
  show "wf (measure length)" by simp
next
  fix s :: ustring and c r
  assume a: "dropWhile is_sep s = c # r"
  have "length (dropWhile (\<lambda>x. \<not> is_sep x) r) \<le> length r" by (rule length_dropWhile_le)
  moreover have "length (c # r) \<le> length s" using length_dropWhile_le[of is_sep s] a by simp
  ultimately show "(dropWhile (\<lambda>x. \<not> is_sep x) r, s) \<in> measure length" by simp
qed

declare segments.simps [simp del]

text \<open>Capitalising the first letter of a segment and nothing else, which is how the
  specification words the step; \<open>str.capitalize\<close> also turns the other letters to lower
  case.\<close>

definition capitalize_first :: "ustring \<Rightarrow> ustring" where
  "capitalize_first s = (case s of [] \<Rightarrow> [] | c # t \<Rightarrow> basic_upper c # t)"

section \<open>Example documents\<close>

text \<open>The text "iyul' 2024, mart 2025" in Cyrillic, without any markup.\<close>

definition doc3 :: ustring where
  "doc3 = [1080, 1102, 1083, 1100] @ asc '' 2024, '' @ [1084, 1072, 1088, 1090] @ asc '' 2025''"

text \<open>The text "mart" in Cyrillic, forty full stops, and "2024": the year begins 44
  characters after the month.\<close>

definition doc4 :: ustring where
  "doc4 = [1084, 1072, 1088, 1090] @ asc ''........................................2024''"


text \<open>A page whose title is "Rapport: Ecole Normale" with the capital E with acute accent
  (U+00C9) for its first E: a capital Latin letter that the class of the title pattern does
  not list.\<close>

definition title5 :: ustring where
  "title5 = asc ''Rapport: '' @ [201] @ asc ''cole Normale''"

definition doc5 :: ustring where
  "doc5 = asc ''<title>'' @ title5 @ asc ''</title>''"


text \<open>Two pages whose visible text is "mart 2024" (Cyrillic): one with the attributes of
  the tag in the opposite order, one with another attribute between them.\<close>

definition doc9a :: ustring where
  "doc9a = asc ''<meta content=\"2025-07\" name=\"report-month\">'' @
           [1084, 1072, 1088, 1090] @ asc '' 2024''"

definition doc9b :: ustring where
  "doc9b = asc ''<meta name=\"report-month\" lang=\"ru\" content=\"2025-07\">'' @
           [1084, 1072, 1088, 1090] @ asc '' 2024''"

section \<open>Facts about the search\<close>

lemma rep_greedy_exact0 [simp]: "rep_greedy P 0 (Some 0) s = [s]"
  by (cases s) simp_all

lemma search_from_None:
  "search_from R ic r i s = None \<longleftrightarrow> (\<forall>k\<le>length s. rmatch R ic r (drop k s) Map.empty = [])"
proof (induction s arbitrary: i)
  case Nil
  show ?case by (simp split: list.splits)
next
  case (Cons c s)
  show ?case
  proof (cases "rmatch R ic r (c # s) Map.empty")
    case Nil
    have "(\<forall>k\<le>length (c # s). rmatch R ic r (drop k (c # s)) Map.empty = []) \<longleftrightarrow>
          (\<forall>k\<le>length s. rmatch R ic r (drop k s) Map.empty = [])"
    proof
      assume a: "\<forall>k\<le>length (c # s). rmatch R ic r (drop k (c # s)) Map.empty = []"
      show "\<forall>k\<le>length s. rmatch R ic r (drop k s) Map.empty = []"
      proof (intro allI impI)
        fix k assume "k \<le> length s"
        then have "Suc k \<le> length (c # s)" by simp
        with a have "rmatch R ic r (drop (Suc k) (c # s)) Map.empty = []" by blast
        then show "rmatch R ic r (drop k s) Map.empty = []" by simp
      qed
    next
      assume a: "\<forall>k\<le>length s. rmatch R ic r (drop k s) Map.empty = []"
      show "\<forall>k\<le>length (c # s). rmatch R ic r (drop k (c # s)) Map.empty = []"
      proof (intro allI impI)
        fix k assume k: "k \<le> length (c # s)"
        show "rmatch R ic r (drop k (c # s)) Map.empty = []"
        proof (cases k)
          case 0 then show ?thesis using Nil by simp
        next
          case (Suc j) then show ?thesis using a k by simp
        qed
      qed
    qed
    with Nil Cons.IH[of "Suc i"] show ?thesis by simp
  next
    case (Cons p ps)
    then have "\<not> (\<forall>k\<le>length (c # s). rmatch R ic r (drop k (c # s)) Map.empty = [])"
      by (auto intro: exI[of _ 0])
    with Cons show ?thesis by (simp split: prod.splits)
  qed
qed

lemma search_from_Some:
  "search_from R ic r i s = Some (j, cs, t) \<longleftrightarrow>
   (\<exists>k\<le>length s. j = i + k \<and> (\<exists>ps. rmatch R ic r (drop k s) Map.empty = (cs, t) # ps) \<and>
      (\<forall>k'<k. rmatch R ic r (drop k' s) Map.empty = []))"
proof (induction s arbitrary: i)
  case Nil
  show ?case by (auto split: list.splits)
next
  case (Cons c s)
  show ?case
  proof (cases "rmatch R ic r (c # s) Map.empty")
    case Nil
    have "search_from R ic r i (c # s) = search_from R ic r (Suc i) s" using Nil by simp
    also have "\<dots> = Some (j, cs, t) \<longleftrightarrow> (\<exists>k\<le>length s. j = Suc i + k \<and> (\<exists>ps. rmatch R ic r (drop k s) Map.empty = (cs, t) # ps) \<and>
      (\<forall>k'<k. rmatch R ic r (drop k' s) Map.empty = []))" by (rule Cons.IH)
    also have "\<dots> \<longleftrightarrow> (\<exists>k\<le>length (c # s). j = i + k \<and> (\<exists>ps. rmatch R ic r (drop k (c # s)) Map.empty = (cs, t) # ps) \<and>
      (\<forall>k'<k. rmatch R ic r (drop k' (c # s)) Map.empty = []))" (is "?A \<longleftrightarrow> ?B")
    proof
      assume ?A
      then obtain k where k: "k \<le> length s" "j = Suc i + k" "\<exists>ps. rmatch R ic r (drop k s) Map.empty = (cs, t) # ps"
        "\<forall>k'<k. rmatch R ic r (drop k' s) Map.empty = []" by blast
      have "\<forall>k'<Suc k. rmatch R ic r (drop k' (c # s)) Map.empty = []"
      proof (intro allI impI)
        fix k' assume "k' < Suc k"
        then show "rmatch R ic r (drop k' (c # s)) Map.empty = []"
          using Nil k(4) by (cases k') auto
      qed
      with k show ?B by (intro exI[of _ "Suc k"]) simp
    next
      assume ?B
      then obtain k where k: "k \<le> length (c # s)" "j = i + k" "\<exists>ps. rmatch R ic r (drop k (c # s)) Map.empty = (cs, t) # ps"
        "\<forall>k'<k. rmatch R ic r (drop k' (c # s)) Map.empty = []" by blast
      from k(3) Nil obtain k0 where k0: "k = Suc k0" by (cases k) auto
      have "\<forall>k'<k0. rmatch R ic r (drop k' s) Map.empty = []"
      proof (intro allI impI)
        fix k' assume "k' < k0"
        then have "Suc k' < k" using k0 by simp
        with k(4) have "rmatch R ic r (drop (Suc k') (c # s)) Map.empty = []" by blast
        then show "rmatch R ic r (drop k' s) Map.empty = []" by simp
      qed
      with k k0 show ?A by (intro exI[of _ k0]) simp
    qed
    finally show ?thesis .
  next
    case (Cons p ps)
    obtain cs0 t0 where p: "p = (cs0, t0)" by (cases p)
    have "search_from R ic r i (c # s) = Some (i, cs0, t0)" using Cons p by simp
    moreover have "(\<exists>k\<le>length (c # s). j = i + k \<and> (\<exists>ps. rmatch R ic r (drop k (c # s)) Map.empty = (cs, t) # ps) \<and>
      (\<forall>k'<k. rmatch R ic r (drop k' (c # s)) Map.empty = [])) \<longleftrightarrow> (j = i \<and> cs0 = cs \<and> t0 = t)" (is "?B \<longleftrightarrow> ?C")
    proof
      assume ?B
      then obtain k where k: "k \<le> length (c # s)" "j = i + k" "\<exists>ps. rmatch R ic r (drop k (c # s)) Map.empty = (cs, t) # ps"
        "\<forall>k'<k. rmatch R ic r (drop k' (c # s)) Map.empty = []" by blast
      have "k = 0"
      proof (rule ccontr)
        assume "k \<noteq> 0"
        then have "0 < k" by simp
        with k(4) have "rmatch R ic r (drop 0 (c # s)) Map.empty = []" by blast
        with Cons show False by simp
      qed
      with k Cons p show ?C by simp
    next
      assume ?C
      then show ?B using Cons p by (intro exI[of _ 0]) simp
    qed
    ultimately show ?thesis by auto
  qed
qed

subsection \<open>The search finds exactly what the pattern accepts\<close>

lemma rep_greedy_sound:
  "t \<in> set (rep_greedy P lo hi s) \<Longrightarrow>
   \<exists>w. s = w @ t \<and> lo \<le> length w \<and> (case hi of None \<Rightarrow> True | Some h \<Rightarrow> length w \<le> h) \<and> list_all P w"
proof (induction P lo hi s rule: rep_greedy.induct)
  case (1 P lo hi)
  then show ?case by (auto split: if_splits option.splits)
next
  case (2 P lo hi c s)
  from "2.prems" consider
      (step) "P c" "hi \<noteq> Some 0" "t \<in> set (rep_greedy P (lo - 1) (map_option (\<lambda>h. h - 1) hi) s)"
    | (stop) "lo = 0" "t = c # s"
    by (auto split: if_splits)
  then show ?case
  proof cases
    case step
    from "2.IH"[OF _ step(3)] step(1,2) obtain w where
      w: "s = w @ t" "lo - 1 \<le> length w"
         "(case map_option (\<lambda>h. h - 1) hi of None \<Rightarrow> True | Some h \<Rightarrow> length w \<le> h)" "list_all P w"
      by auto
    have "c # s = (c # w) @ t" using w(1) by simp
    moreover have "lo \<le> length (c # w)" using w(2) by simp
    moreover have "(case hi of None \<Rightarrow> True | Some h \<Rightarrow> length (c # w) \<le> h)"
      using w(3) step(2) by (cases hi) auto
    moreover have "list_all P (c # w)" using w(4) step(1) by simp
    ultimately show ?thesis by blast
  next
    case stop
    then show ?thesis by (cases hi) auto
  qed
qed

lemma rep_greedy_complete:
  "list_all P w \<Longrightarrow> lo \<le> length w \<Longrightarrow> (case hi of None \<Rightarrow> True | Some h \<Rightarrow> length w \<le> h) \<Longrightarrow>
   t \<in> set (rep_greedy P lo hi (w @ t))"
proof (induction w arbitrary: lo hi)
  case Nil
  then show ?case by (cases t) auto
next
  case (Cons c w)
  have nz: "hi \<noteq> Some 0" using Cons.prems(3) by (cases hi) auto
  have b: "(case map_option (\<lambda>h. h - 1) hi of None \<Rightarrow> True | Some h \<Rightarrow> length w \<le> h)"
    using Cons.prems(3) by (cases hi) auto
  have "t \<in> set (rep_greedy P (lo - 1) (map_option (\<lambda>h. h - 1) hi) (w @ t))"
    using Cons.IH[of "lo - 1" "map_option (\<lambda>h. h - 1) hi"] Cons.prems b by simp
  then show ?case using Cons.prems(1) nz by simp
qed

lemma rmatch_rests:
  "(\<exists>cs'. (cs', t) \<in> set (rmatch R ic r s cs)) \<longleftrightarrow> (\<exists>w. s = w @ t \<and> matches R ic r w t)"
proof (induction r arbitrary: s cs t)
  case (Chr k)
  show ?case by (cases s) auto
next
  case (Seq a b)
  show ?case
  proof
    assume "\<exists>cs'. (cs', t) \<in> set (rmatch R ic (Seq a b) s cs)"
    then obtain cs' cs1 t1 where 1: "(cs1, t1) \<in> set (rmatch R ic a s cs)"
      and 2: "(cs', t) \<in> set (rmatch R ic b t1 cs1)" by auto
    from 1 Seq.IH(1)[of t1 s cs] obtain u where u: "s = u @ t1" "matches R ic a u t1" by blast
    from 2 Seq.IH(2)[of t t1 cs1] obtain v where v: "t1 = v @ t" "matches R ic b v t" by blast
    from u v have "s = (u @ v) @ t \<and> matches R ic (Seq a b) (u @ v) t" by auto
    then show "\<exists>w. s = w @ t \<and> matches R ic (Seq a b) w t" by blast
  next
    assume "\<exists>w. s = w @ t \<and> matches R ic (Seq a b) w t"
    then obtain u v where uv: "s = (u @ v) @ t" "matches R ic a u (v @ t)" "matches R ic b v t"
      by auto
    from uv(1,2) Seq.IH(1)[of "v @ t" s cs] obtain cs1 where 1: "(cs1, v @ t) \<in> set (rmatch R ic a s cs)"
      by auto
    from uv(3) Seq.IH(2)[of t "v @ t" cs1] obtain cs' where 2: "(cs', t) \<in> set (rmatch R ic b (v @ t) cs1)"
      by auto
    from 1 2 show "\<exists>cs'. (cs', t) \<in> set (rmatch R ic (Seq a b) s cs)" by force
  qed
next
  case (Alt a b)
  from Alt.IH(1)[of t s cs] Alt.IH(2)[of t s cs] show ?case by auto
next
  case Eps
  show ?case by auto
next
  case (Rep lo hi k)
  show ?case
  proof
    assume "\<exists>cs'. (cs', t) \<in> set (rmatch R ic (Rep lo hi k) s cs)"
    then have "t \<in> set (rep_greedy (cset_ok R ic k) lo hi s)" by auto
    from rep_greedy_sound[OF this] show "\<exists>w. s = w @ t \<and> matches R ic (Rep lo hi k) w t" by auto
  next
    assume "\<exists>w. s = w @ t \<and> matches R ic (Rep lo hi k) w t"
    then obtain w where w: "s = w @ t" "lo \<le> length w" "(case hi of None \<Rightarrow> True | Some h \<Rightarrow> length w \<le> h)"
      "list_all (cset_ok R ic k) w" by auto
    from rep_greedy_complete[OF w(4) w(2) w(3), of t] w(1)
    show "\<exists>cs'. (cs', t) \<in> set (rmatch R ic (Rep lo hi k) s cs)" by auto
  qed
next
  case (Group n a)
  from Group.IH[of t s cs] show ?case by (auto simp: image_iff) force
next
  case Eos
  show ?case by auto
qed

lemma rmatch_nonempty_iff:
  "rmatch R ic r s cs \<noteq> [] \<longleftrightarrow> (\<exists>w t. s = w @ t \<and> matches R ic r w t)"
proof -
  have "rmatch R ic r s cs \<noteq> [] \<longleftrightarrow> (\<exists>t cs'. (cs', t) \<in> set (rmatch R ic r s cs))"
    by (cases "rmatch R ic r s cs") auto
  also have "\<dots> \<longleftrightarrow> (\<exists>t w. s = w @ t \<and> matches R ic r w t)"
    using rmatch_rests[of _ R ic r s cs] by blast
  finally show ?thesis by blast
qed

section \<open>The year pattern\<close>

lemma year_at:
  "rmatch R False YEAR_RE s cs =
     (case s of a # b # c # d # t \<Rightarrow>
        if a = 50 \<and> b = 48 \<and> decimal R c \<noteq> None \<and> decimal R d \<noteq> None
        then [(cs(1 \<mapsto> [50, 48, c, d]), t)] else []
      | _ \<Rightarrow> [])"
  by (simp add: YEAR_RE_def lit_def split: list.splits)

lemma year_at_Cons:
  "rmatch R False YEAR_RE s cs = p # ps \<Longrightarrow>
   \<exists>c d t. s = 50 # 48 # c # d # t \<and> decimal R c \<noteq> None \<and> decimal R d \<noteq> None \<and>
     p = (cs(1 \<mapsto> [50, 48, c, d]), t) \<and> ps = []"
  by (auto simp: year_at split: list.splits if_splits)

lemma year_at_Nil:
  "rmatch R False YEAR_RE s cs = [] \<longleftrightarrow>
   \<not> (\<exists>c d t. s = 50 # 48 # c # d # t \<and> decimal R c \<noteq> None \<and> decimal R d \<noteq> None)"
  by (auto simp: year_at split: list.splits if_splits)

lemma int_group_year:
  "decimal R c = Some vc \<Longrightarrow> decimal R d = Some vd \<Longrightarrow> cs 1 = Some [50, 48, c, d] \<Longrightarrow>
   int_group R cs 1 = Inr (2000 + 10 * int vc + int vd)"
  by (simp add: int_group_def py_int_def decimal_def)

lemma year_search_value:
  assumes "re_search R False YEAR_RE s = Some (i, cs, t)"
  shows "\<exists>c d vc vd. s = take i s @ [50, 48, c, d] @ t \<and> i \<le> length s \<and> decimal R c = Some vc \<and> decimal R d = Some vd \<and>
           int_group R cs 1 = Inr (2000 + 10 * int vc + int vd)"
proof -
  from assms obtain k ps where k: "k \<le> length s" "i = k"
      "rmatch R False YEAR_RE (drop k s) Map.empty = (cs, t) # ps"
    unfolding re_search_def search_from_Some by auto
  from year_at_Cons[OF k(3)] obtain c d where
    cd: "drop k s = 50 # 48 # c # d # t" "decimal R c \<noteq> None" "decimal R d \<noteq> None"
        "cs = Map.empty(1 \<mapsto> [50, 48, c, d])" by auto
  from cd(2,3) obtain vc vd where v: "decimal R c = Some vc" "decimal R d = Some vd" by auto
  have "s = take k s @ drop k s" by simp
  then have "s = take i s @ [50, 48, c, d] @ t" using cd(1) k(2) by simp
  moreover have "int_group R cs 1 = Inr (2000 + 10 * int vc + int vd)"
    using int_group_year[OF v] cd(4) by simp
  ultimately show ?thesis using v k by blast
qed

section \<open>The loop over the months\<close>

lemma find_month_None:
  "find_month R L blob = None \<longleftrightarrow> (\<forall>e\<in>set L. re_search R True (snd (snd e)) blob = None)"
  by (induction L) (auto split: option.splits)

lemma find_month_Some:
  "find_month R L blob = Some (n, nm, pos) \<Longrightarrow>
   \<exists>i r cs t. i < length L \<and> L ! i = (n, nm, r) \<and> re_search R True r blob = Some (pos, cs, t) \<and>
     (\<forall>j<i. re_search R True (snd (snd (L ! j))) blob = None)"
proof (induction L)
  case Nil
  then show ?case by simp
next
  case (Cons e L)
  obtain n0 nm0 r0 where e: "e = (n0, nm0, r0)" by (cases e)
  show ?case
  proof (cases "re_search R True r0 blob")
    case None
    with Cons.prems e have "find_month R L blob = Some (n, nm, pos)" by simp
    from Cons.IH[OF this] obtain i r cs t where i: "i < length L" "L ! i = (n, nm, r)"
      "re_search R True r blob = Some (pos, cs, t)"
      "\<forall>j<i. re_search R True (snd (snd (L ! j))) blob = None" by blast
    have "\<forall>j<Suc i. re_search R True (snd (snd ((e # L) ! j))) blob = None"
    proof (intro allI impI)
      fix j assume "j < Suc i"
      then show "re_search R True (snd (snd ((e # L) ! j))) blob = None"
        using None e i(4) by (cases j) auto
    qed
    with i(1,2,3) show ?thesis by (intro exI[of _ "Suc i"]) auto
  next
    case (Some a)
    obtain p cs t where a: "a = (p, cs, t)" by (cases a)
    with Some Cons.prems e have "n = n0" "nm = nm0" "pos = p" by auto
    with Some a e show ?thesis by (intro exI[of _ 0]) auto
  qed
qed

lemma month_numbers: "map fst MONTH_COMPILED = map (\<lambda>i. int i + 1) [0..<12]"
  by code_simp

lemma month_number_at: "i < length MONTH_COMPILED \<Longrightarrow> fst (MONTH_COMPILED ! i) = int i + 1"
proof -
  assume i: "i < length MONTH_COMPILED"
  have len: "length MONTH_COMPILED = 12" using arg_cong[OF month_numbers, of length] by simp
  have "fst (MONTH_COMPILED ! i) = map fst MONTH_COMPILED ! i" using i by simp
  also have "\<dots> = map (\<lambda>i. int i + 1) [0..<12] ! i" by (simp only: month_numbers)
  also have "\<dots> = int i + 1" using i len by simp
  finally show ?thesis .
qed

lemma heuristic_cases:
  assumes "parse R text = Inr ps"
    and "find_month R MONTH_COMPILED (join_sp (all_text ps)) = Some (m, lbl, p)"
  shows "\<exists>y. heuristic_month_year R text = Inr (Some m, y, Some lbl)"
proof (cases "re_search R False YEAR_RE
                (py_slice (join_sp (all_text ps)) (max 0 (int p - 40))
                   (min (int (length (join_sp (all_text ps)))) (int p + 40)))")
  case None
  with assms show ?thesis by (simp add: heuristic_month_year_def Let_def)
next
  case (Some a)
  obtain i cs t where a: "a = (i, cs, t)" by (cases a)
  from year_search_value[OF Some[unfolded a]] obtain v where "int_group R cs 1 = Inr v" by blast
  with assms Some a show ?thesis by (simp add: heuristic_month_year_def Let_def)
qed

section \<open>The parser and the window\<close>

lemma run_events_snoc: "run_events R p (evs @ [e]) = handle R (run_events R p evs) e"
  by (simp add: run_events_def)

lemma take_drop_nths: "b \<le> length s \<Longrightarrow> take (b - a) (drop a s) = map ((!) s) [a..<b]"
  by (rule nth_equalityI) auto

lemma py_slice_nat:
  "py_slice s (int a) (int b) =
   take (min b (length s) - min a (length s)) (drop (min a (length s)) s)"
proof -
  have a: "(if int a < 0 then max 0 (int a + int (length s)) else min (int a) (int (length s)))
             = int (min a (length s))" by simp
  have b: "(if int b < 0 then max 0 (int b + int (length s)) else min (int b) (int (length s)))
             = int (min b (length s))" by simp
  have c: "nat (int (min b (length s)) - int (min a (length s))) = min b (length s) - min a (length s)"
    by linarith
  show ?thesis unfolding py_slice_def Let_def a b c by simp
qed

lemma py_slice_window:
  "py_slice s (max 0 (int p - 40)) (min (int (length s)) (int p + 40)) =
   map ((!) s) [p - 40 ..< min (length s) (p + 40)]"
proof -
  define b where "b = min (length s) (p + 40)"
  have a: "max 0 (int p - 40) = int (p - 40)" by auto
  have b: "min (int (length s)) (int p + 40) = int b" unfolding b_def by auto
  have bl: "b \<le> length s" unfolding b_def by simp
  have "py_slice s (int (p - 40)) (int b) =
          take (b - min (p - 40) (length s)) (drop (min (p - 40) (length s)) s)"
    using bl by (simp add: py_slice_nat min_absorb1)
  also have "\<dots> = map ((!) s) [p - 40 ..< b]"
  proof (cases "p - 40 \<le> length s")
    case True
    then show ?thesis using bl by (simp add: min_absorb1 take_drop_nths)
  next
    case False
    then show ?thesis using bl by simp
  qed
  finally show ?thesis unfolding a b b_def .
qed

lemma year_search_first:
  assumes "s = u @ [50, 48, c, d] @ v" and "decimal R c = Some vc" and "decimal R d = Some vd"
    and "\<forall>u' c' d' v'. s = u' @ [50, 48, c', d'] @ v' \<and> decimal R c' \<noteq> None \<and> decimal R d' \<noteq> None
           \<longrightarrow> length u \<le> length u'"
  shows "re_search R False YEAR_RE s = Some (length u, Map.empty(1 \<mapsto> [50, 48, c, d]), v)"
proof -
  have at: "rmatch R False YEAR_RE (drop (length u) s) Map.empty = [(Map.empty(1 \<mapsto> [50, 48, c, d]), v)]"
    using assms(1,2,3) by (simp add: year_at)
  have before: "rmatch R False YEAR_RE (drop k s) Map.empty = []" if "k < length u" for k
  proof (rule ccontr)
    assume "rmatch R False YEAR_RE (drop k s) Map.empty \<noteq> []"
    then obtain c' d' t where t: "drop k s = 50 # 48 # c' # d' # t" "decimal R c' \<noteq> None" "decimal R d' \<noteq> None"
      unfolding year_at_Nil by blast
    have "s = take k s @ [50, 48, c', d'] @ t" using t(1) by (metis append_Cons append_Nil append_take_drop_id)
    with assms(4) t(2,3) have "length u \<le> length (take k s)" by blast
    with that show False by simp
  qed
  have "length u \<le> length s" using assms(1) by simp
  with at before show ?thesis unfolding re_search_def search_from_Some by auto
qed

lemma year_search_none:
  assumes "\<forall>u c d v. s = u @ [50, 48, c, d] @ v \<longrightarrow> decimal R c = None \<or> decimal R d = None"
  shows "re_search R False YEAR_RE s = None"
proof -
  have "rmatch R False YEAR_RE (drop k s) Map.empty = []" for k
  proof (rule ccontr)
    assume "rmatch R False YEAR_RE (drop k s) Map.empty \<noteq> []"
    then obtain c' d' t where t: "drop k s = 50 # 48 # c' # d' # t" "decimal R c' \<noteq> None" "decimal R d' \<noteq> None"
      unfolding year_at_Nil by blast
    have "s = take k s @ [50, 48, c', d'] @ t" using t(1) by (metis append_Cons append_Nil append_take_drop_id)
    with assms[rule_format, of "take k s" c' d' t] t(2,3) show False by simp
  qed
  then show ?thesis unfolding re_search_def search_from_None by simp
qed

section \<open>The metadata pattern\<close>

lemma meta_at_tag:
  assumes "decimal R a \<noteq> None" "decimal R b \<noteq> None" "decimal R c \<noteq> None" "decimal R d \<noteq> None"
    and "decimal R e \<noteq> None" "decimal R f \<noteq> None"
  shows "rmatch R True meta_rx
           (asc ''<meta name=\"report-month\" content=\"'' @ [a, b, c, d] @ [45] @ [e, f] @ asc ''\">'' @ post)
           Map.empty
         = [(Map.empty(1 \<mapsto> [a, b, c, d], 2 \<mapsto> [e, f]), 62 # post)]"
  using assms
  by (simp add: meta_rx_def asc_def lit_def quote_def ci_accepts_def is_space_def)

lemma py_int_digits:
  "py_int R s = Some v \<Longrightarrow> \<forall>c\<in>set s. decimal R c \<noteq> None"
proof -
  have "digits_value R acc s = Some v \<Longrightarrow> \<forall>c\<in>set s. decimal R c \<noteq> None" for acc
    by (induction s arbitrary: acc) (auto split: option.splits)
  then show "py_int R s = Some v \<Longrightarrow> \<forall>c\<in>set s. decimal R c \<noteq> None"
    by (auto simp: py_int_def split: if_splits)
qed



subsection \<open>The patterns do not look at the tokenizer\<close>

lemma decimal_feed [simp]: "decimal (R\<lparr>feed := f\<rparr>) c = decimal R c"
  by (simp add: decimal_def)

lemma ci_accepts_feed [simp]: "ci_accepts (R\<lparr>feed := f\<rparr>) c ch = ci_accepts R c ch"
  by (simp add: ci_accepts_def)

lemma item_ok_feed [simp]: "item_ok (R\<lparr>feed := f\<rparr>) ic it ch = item_ok R ic it ch"
  by (cases it) simp_all

lemma cset_ok_feed [simp]: "cset_ok (R\<lparr>feed := f\<rparr>) ic k = cset_ok R ic k"
  by (cases k) (simp_all add: fun_eq_iff)

lemma rmatch_feed [simp]: "rmatch (R\<lparr>feed := f\<rparr>) ic r s cs = rmatch R ic r s cs"
  by (induction r arbitrary: s cs) (simp_all split: list.splits cong: map_cong)

lemma search_from_feed [simp]: "search_from (R\<lparr>feed := f\<rparr>) ic r i s = search_from R ic r i s"
  by (induction s arbitrary: i) (simp_all split: list.splits)

lemma py_int_feed [simp]: "py_int (R\<lparr>feed := f\<rparr>) s = py_int R s"
proof -
  have "digits_value (R\<lparr>feed := f\<rparr>) acc s = digits_value R acc s" for acc
    by (induction s arbitrary: acc) (simp_all split: option.splits)
  then show ?thesis by (simp add: py_int_def)
qed

subsection \<open>The pattern and the shape of the tag\<close>

lemma matches_lit: "matches R True (lit c) u t \<longleftrightarrow> (\<exists>h. u = [h] \<and> ci_accepts R c h)"
  by (simp add: lit_def)

lemma matches_word: "matches R True (word w) u t \<longleftrightarrow> ci_word R w u"
proof (induction w arbitrary: u t rule: word.induct)
  case 1
  show ?case by (simp add: ci_word_def)
next
  case (2 c)
  show ?case by (auto simp: ci_word_def lit_def list_all2_Cons1)
next
  case (3 c v va)
  have "matches R True (word (c # v # va)) u t \<longleftrightarrow>
        (\<exists>h v1. u = [h] @ v1 \<and> ci_accepts R c h \<and> ci_word R (v # va) v1)"
    unfolding word.simps matches.simps 3 matches_lit by blast
  then show ?case by (auto simp: ci_word_def list_all2_Cons1)
qed

lemma matches_ws: "matches R True (Rep 1 None (In [Space])) u t \<longleftrightarrow> u \<noteq> [] \<and> list_all is_space u"
  by (cases u) (auto simp: list_all_iff)

lemma matches_quote: "matches R True quote u t \<longleftrightarrow> (\<exists>q. u = [q] \<and> is_quote R q)"
  by (simp add: quote_def is_quote_def)

lemma matches_digits:
  "matches R True (Group n (Rep k (Some k) (In [Digit]))) u t \<longleftrightarrow> length u = k \<and> list_all (is_digit R) u"
  by (auto simp: is_digit_def list_all_iff)

lemma matches_SeqI:
  "matches R ic a u (v @ t) \<Longrightarrow> matches R ic b v t \<Longrightarrow> matches R ic (Seq a b) (u @ v) t"
  by auto

lemma matches_SeqE:
  assumes "matches R ic (Seq a b) w t"
  obtains u v where "w = u @ v" "matches R ic a u (v @ t)" "matches R ic b v t"
  using assms by auto

lemma meta_rx_nest: "meta_rx =
  Seq (word (asc ''<meta'')) (Seq (Rep 1 None (In [Space])) (Seq (word (asc ''name='')) (Seq (quote) (Seq (word (asc ''report-month'')) (Seq (quote) (Seq (Rep 1 None (In [Space])) (Seq (word (asc ''content='')) (Seq (quote) (Seq (Group 1 (Rep 4 (Some 4) (In [Digit]))) (Seq (lit 45) (Seq (Group 2 (Rep 2 (Some 2) (In [Digit]))) (quote))))))))))))"
  unfolding meta_rx_def by (simp only: seqs.simps)

lemma meta_matches_shape:
  "(\<exists>w t. s = w @ t \<and> matches R True meta_rx w t) \<longleftrightarrow> tag_shape R s"
proof
  assume "\<exists>w t. s = w @ t \<and> matches R True meta_rx w t"
  then obtain w t where s: "s = w @ t" and m0: "matches R True meta_rx w t" by blast
  note m0 = m0[unfolded meta_rx_nest]
  from m0 obtain u1 v1 where 1: "w = u1 @ v1" "matches R True (word (asc ''<meta'')) u1 (v1 @ t)"
    and m1: "matches R True (Seq (Rep 1 None (In [Space])) (Seq (word (asc ''name='')) (Seq (quote) (Seq (word (asc ''report-month'')) (Seq (quote) (Seq (Rep 1 None (In [Space])) (Seq (word (asc ''content='')) (Seq (quote) (Seq (Group 1 (Rep 4 (Some 4) (In [Digit]))) (Seq (lit 45) (Seq (Group 2 (Rep 2 (Some 2) (In [Digit]))) (quote)))))))))))) v1 t"
    by (rule matches_SeqE)
  from m1 obtain u2 v2 where 2: "v1 = u2 @ v2" "matches R True (Rep 1 None (In [Space])) u2 (v2 @ t)"
    and m2: "matches R True (Seq (word (asc ''name='')) (Seq (quote) (Seq (word (asc ''report-month'')) (Seq (quote) (Seq (Rep 1 None (In [Space])) (Seq (word (asc ''content='')) (Seq (quote) (Seq (Group 1 (Rep 4 (Some 4) (In [Digit]))) (Seq (lit 45) (Seq (Group 2 (Rep 2 (Some 2) (In [Digit]))) (quote))))))))))) v2 t"
    by (rule matches_SeqE)
  from m2 obtain u3 v3 where 3: "v2 = u3 @ v3" "matches R True (word (asc ''name='')) u3 (v3 @ t)"
    and m3: "matches R True (Seq (quote) (Seq (word (asc ''report-month'')) (Seq (quote) (Seq (Rep 1 None (In [Space])) (Seq (word (asc ''content='')) (Seq (quote) (Seq (Group 1 (Rep 4 (Some 4) (In [Digit]))) (Seq (lit 45) (Seq (Group 2 (Rep 2 (Some 2) (In [Digit]))) (quote)))))))))) v3 t"
    by (rule matches_SeqE)
  from m3 obtain u4 v4 where 4: "v3 = u4 @ v4" "matches R True (quote) u4 (v4 @ t)"
    and m4: "matches R True (Seq (word (asc ''report-month'')) (Seq (quote) (Seq (Rep 1 None (In [Space])) (Seq (word (asc ''content='')) (Seq (quote) (Seq (Group 1 (Rep 4 (Some 4) (In [Digit]))) (Seq (lit 45) (Seq (Group 2 (Rep 2 (Some 2) (In [Digit]))) (quote))))))))) v4 t"
    by (rule matches_SeqE)
  from m4 obtain u5 v5 where 5: "v4 = u5 @ v5" "matches R True (word (asc ''report-month'')) u5 (v5 @ t)"
    and m5: "matches R True (Seq (quote) (Seq (Rep 1 None (In [Space])) (Seq (word (asc ''content='')) (Seq (quote) (Seq (Group 1 (Rep 4 (Some 4) (In [Digit]))) (Seq (lit 45) (Seq (Group 2 (Rep 2 (Some 2) (In [Digit]))) (quote)))))))) v5 t"
    by (rule matches_SeqE)
  from m5 obtain u6 v6 where 6: "v5 = u6 @ v6" "matches R True (quote) u6 (v6 @ t)"
    and m6: "matches R True (Seq (Rep 1 None (In [Space])) (Seq (word (asc ''content='')) (Seq (quote) (Seq (Group 1 (Rep 4 (Some 4) (In [Digit]))) (Seq (lit 45) (Seq (Group 2 (Rep 2 (Some 2) (In [Digit]))) (quote))))))) v6 t"
    by (rule matches_SeqE)
  from m6 obtain u7 v7 where 7: "v6 = u7 @ v7" "matches R True (Rep 1 None (In [Space])) u7 (v7 @ t)"
    and m7: "matches R True (Seq (word (asc ''content='')) (Seq (quote) (Seq (Group 1 (Rep 4 (Some 4) (In [Digit]))) (Seq (lit 45) (Seq (Group 2 (Rep 2 (Some 2) (In [Digit]))) (quote)))))) v7 t"
    by (rule matches_SeqE)
  from m7 obtain u8 v8 where 8: "v7 = u8 @ v8" "matches R True (word (asc ''content='')) u8 (v8 @ t)"
    and m8: "matches R True (Seq (quote) (Seq (Group 1 (Rep 4 (Some 4) (In [Digit]))) (Seq (lit 45) (Seq (Group 2 (Rep 2 (Some 2) (In [Digit]))) (quote))))) v8 t"
    by (rule matches_SeqE)
  from m8 obtain u9 v9 where 9: "v8 = u9 @ v9" "matches R True (quote) u9 (v9 @ t)"
    and m9: "matches R True (Seq (Group 1 (Rep 4 (Some 4) (In [Digit]))) (Seq (lit 45) (Seq (Group 2 (Rep 2 (Some 2) (In [Digit]))) (quote)))) v9 t"
    by (rule matches_SeqE)
  from m9 obtain u10 v10 where 10: "v9 = u10 @ v10" "matches R True (Group 1 (Rep 4 (Some 4) (In [Digit]))) u10 (v10 @ t)"
    and m10: "matches R True (Seq (lit 45) (Seq (Group 2 (Rep 2 (Some 2) (In [Digit]))) (quote))) v10 t"
    by (rule matches_SeqE)
  from m10 obtain u11 v11 where 11: "v10 = u11 @ v11" "matches R True (lit 45) u11 (v11 @ t)"
    and m11: "matches R True (Seq (Group 2 (Rep 2 (Some 2) (In [Digit]))) (quote)) v11 t"
    by (rule matches_SeqE)
  from m11 obtain u12 u13 where 12: "v11 = u12 @ u13" "matches R True (Group 2 (Rep 2 (Some 2) (In [Digit]))) u12 (u13 @ t)"
    and m12: "matches R True (quote) u13 t"
    by (rule matches_SeqE)
  from 4(2) obtain q1 where q1: "u4 = [q1]" "is_quote R q1" unfolding matches_quote by blast
  from 6(2) obtain q2 where q2: "u6 = [q2]" "is_quote R q2" unfolding matches_quote by blast
  from 9(2) obtain q3 where q3: "u9 = [q3]" "is_quote R q3" unfolding matches_quote by blast
  from m12 obtain q4 where q4: "u13 = [q4]" "is_quote R q4" unfolding matches_quote by blast
  from 11(2) obtain h where h: "u11 = [h]" "ci_accepts R 45 h" unfolding matches_lit by blast
  have eq: "s = u1 @ u2 @ u3 @ [q1] @ u5 @ [q2] @ u7 @ u8 @ [q3] @ u10 @ [h] @ u12 @ [q4] @ t"
    using s 1(1) 2(1) 3(1) 4(1) 5(1) 6(1) 7(1) 8(1) 9(1) 10(1) 11(1) 12(1) q1(1) q2(1) q3(1) q4(1) h(1)
    by simp
  have p: "ci_word R (asc ''<meta'') u1" "u2 \<noteq> [] \<and> list_all is_space u2"
    "ci_word R (asc ''name='') u3" "ci_word R (asc ''report-month'') u5"
    "u7 \<noteq> [] \<and> list_all is_space u7" "ci_word R (asc ''content='') u8"
    "length u10 = 4 \<and> list_all (is_digit R) u10" "length u12 = 2 \<and> list_all (is_digit R) u12"
    using 1(2) 2(2) 3(2) 5(2) 7(2) 8(2) 10(2) 12(2)
    unfolding matches_word matches_ws matches_digits by blast+
  show "tag_shape R s"
    unfolding tag_shape_def tag_with_def
    using eq p q1(2) q2(2) q3(2) q4(2) h(2) by blast
next
  assume "tag_shape R s"
  then obtain lt ws1 nm q1 rm q2 ws2 ct q3 ys h ms q4 rest where
    eq: "s = lt @ ws1 @ nm @ [q1] @ rm @ [q2] @ ws2 @ ct @ [q3] @ ys @ [h] @ ms @ [q4] @ rest"
    and p: "ci_word R (asc ''<meta'') lt" "ws1 \<noteq> []" "list_all is_space ws1"
      "ci_word R (asc ''name='') nm" "is_quote R q1"
      "ci_word R (asc ''report-month'') rm" "is_quote R q2"
      "ws2 \<noteq> []" "list_all is_space ws2"
      "ci_word R (asc ''content='') ct" "is_quote R q3"
      "length ys = 4" "list_all (is_digit R) ys" "ci_accepts R 45 h"
      "length ms = 2" "list_all (is_digit R) ms" "is_quote R q4"
    unfolding tag_shape_def tag_with_def by blast
  have "matches R True meta_rx (lt @ ws1 @ nm @ [q1] @ rm @ [q2] @ ws2 @ ct @ [q3] @ ys @ [h] @ ms @ [q4]) rest"
    unfolding meta_rx_nest
    by (intro matches_SeqI;
        simp only: matches_word matches_ws matches_digits matches_quote matches_lit;
        simp add: p)
  moreover have "s = (lt @ ws1 @ nm @ [q1] @ rm @ [q2] @ ws2 @ ct @ [q3] @ ys @ [h] @ ms @ [q4]) @ rest"
    using eq by simp
  ultimately show "\<exists>w t. s = w @ t \<and> matches R True meta_rx w t" by blast
qed

lemma meta_at_iff_shape: "rmatch R True meta_rx s cs \<noteq> [] \<longleftrightarrow> tag_shape R s"
  unfolding rmatch_nonempty_iff by (rule meta_matches_shape)

lemma meta_search_iff_shape:
  "re_search R True meta_rx text \<noteq> None \<longleftrightarrow> (\<exists>k. tag_shape R (drop k text))"
proof -
  have "re_search R True meta_rx text \<noteq> None \<longleftrightarrow>
        (\<exists>k\<le>length text. rmatch R True meta_rx (drop k text) Map.empty \<noteq> [])"
    unfolding re_search_def search_from_None by blast
  also have "\<dots> \<longleftrightarrow> (\<exists>k\<le>length text. tag_shape R (drop k text))"
    unfolding meta_at_iff_shape ..
  also have "\<dots> \<longleftrightarrow> (\<exists>k. tag_shape R (drop k text))"
  proof
    assume "\<exists>k\<le>length text. tag_shape R (drop k text)"
    then show "\<exists>k. tag_shape R (drop k text)" by blast
  next
    assume "\<exists>k. tag_shape R (drop k text)"
    then obtain k where k: "tag_shape R (drop k text)" by blast
    have "drop k text \<noteq> []" using k by (auto simp: tag_shape_def tag_with_def)
    then have "k \<le> length text" by simp
    with k show "\<exists>k\<le>length text. tag_shape R (drop k text)" by blast
  qed
  finally show ?thesis .
qed

lemma heuristic_eval:
  assumes "parse R text = Inr ps"
    and "join_sp (all_text ps) = blob"
    and "find_month R MONTH_COMPILED blob = Some (m, lbl, p)"
    and "py_slice blob (max 0 (int p - 40)) (min (int (length blob)) (int p + 40)) = around"
    and "re_search R False YEAR_RE around = Some (i, cs, t)"
    and "int_group R cs 1 = Inr y"
  shows "heuristic_month_year R text = Inr (Some m, Some y, Some lbl)"
  unfolding heuristic_month_year_def Let_def assms(1) sum.case assms(2) assms(3)
  using assms(4,5,6) by simp

subsection \<open>What the groups of the metadata pattern capture\<close>

lemma rmatch_mem:
  "(cs', t) \<in> set (rmatch R ic r s cs) \<Longrightarrow>
   \<exists>w. s = w @ t \<and> matches R ic r w t \<and> (no_groups r \<longrightarrow> cs' = cs)"
proof (induction r arbitrary: s cs cs' t)
  case (Chr k)
  then show ?case by (cases s) (auto split: if_splits)
next
  case (Seq a b)
  from Seq.prems obtain cs1 t1 where 1: "(cs1, t1) \<in> set (rmatch R ic a s cs)"
    and 2: "(cs', t) \<in> set (rmatch R ic b t1 cs1)" by auto
  from Seq.IH(1)[OF 1] obtain u where u: "s = u @ t1" "matches R ic a u t1" "no_groups a \<longrightarrow> cs1 = cs"
    by blast
  from Seq.IH(2)[OF 2] obtain v where v: "t1 = v @ t" "matches R ic b v t" "no_groups b \<longrightarrow> cs' = cs1"
    by blast
  have "s = (u @ v) @ t" using u(1) v(1) by simp
  moreover have "matches R ic (Seq a b) (u @ v) t" using u(2) v(1,2) by auto
  moreover have "no_groups (Seq a b) \<longrightarrow> cs' = cs" using u(3) v(3) by simp
  ultimately show ?case by blast
next
  case (Alt a b)
  from Alt.prems consider "(cs', t) \<in> set (rmatch R ic a s cs)" | "(cs', t) \<in> set (rmatch R ic b s cs)"
    by auto
  then show ?case
  proof cases
    case 1
    from Alt.IH(1)[OF 1] show ?thesis by auto
  next
    case 2
    from Alt.IH(2)[OF 2] show ?thesis by auto
  qed
next
  case Eps
  then show ?case by auto
next
  case (Rep lo hi k)
  then have "t \<in> set (rep_greedy (cset_ok R ic k) lo hi s)" "cs' = cs" by auto
  from rep_greedy_sound[OF this(1)] this(2) show ?case by auto
next
  case (Group n a)
  from Group.prems obtain cs0 where "(cs0, t) \<in> set (rmatch R ic a s cs)" by auto
  from Group.IH[OF this] show ?case by auto
next
  case Eos
  then show ?case by (auto split: if_splits)
qed

lemma rmatch_plain:
  assumes "(cs', t) \<in> set (rmatch R ic r s cs)" and "no_groups r"
  obtains w where "s = w @ t" "matches R ic r w t" "cs' = cs"
  using rmatch_mem[OF assms(1)] assms(2) by blast

lemma rmatch_group_digits:
  assumes "(cs', t) \<in> set (rmatch R True (Group n (Rep k (Some k) (In [Digit]))) s cs)"
  obtains u where "s = u @ t" "length u = k" "list_all (is_digit R) u" "cs' = cs(n \<mapsto> u)"
proof -
  from assms have t: "t \<in> set (rep_greedy (cset_ok R True (In [Digit])) k (Some k) s)"
    and c: "cs' = cs(n \<mapsto> take (length s - length t) s)" by auto
  from rep_greedy_sound[OF t] obtain w where w: "s = w @ t" "k \<le> length w" "length w \<le> k"
    "list_all (cset_ok R True (In [Digit])) w" by auto
  have "take (length s - length t) s = w" using w(1) by simp
  moreover have "list_all (is_digit R) w" using w(4) by (simp add: is_digit_def list_all_iff)
  ultimately show ?thesis using that[of w] w c by simp
qed

lemma rmatch_SeqE:
  assumes "(cs', t) \<in> set (rmatch R ic (Seq a b) s cs)"
  obtains cs1 t1 where "(cs1, t1) \<in> set (rmatch R ic a s cs)" "(cs', t) \<in> set (rmatch R ic b t1 cs1)"
  using assms by auto

lemma no_groups_parts [simp]: "no_groups (word w)" "no_groups quote" "no_groups (lit c)"
  by (induction w rule: word.induct) (simp_all add: quote_def lit_def)

lemma meta_groups:
  assumes "(cs, t) \<in> set (rmatch R True meta_rx s Map.empty)"
  shows "\<exists>ys ms. tag_with R ys ms s \<and> cs 1 = Some ys \<and> cs 2 = Some ms"
proof -
  note m0 = assms[unfolded meta_rx_nest]
  from m0 obtain c1 t1 where h1: "(c1, t1) \<in> set (rmatch R True (word (asc ''<meta'')) s Map.empty)"
    and m1: "(cs, t) \<in> set (rmatch R True (Seq (Rep 1 None (In [Space])) (Seq (word (asc ''name='')) (Seq (quote) (Seq (word (asc ''report-month'')) (Seq (quote) (Seq (Rep 1 None (In [Space])) (Seq (word (asc ''content='')) (Seq (quote) (Seq (Group 1 (Rep 4 (Some 4) (In [Digit]))) (Seq (lit 45) (Seq (Group 2 (Rep 2 (Some 2) (In [Digit]))) (quote)))))))))))) t1 c1)"
    by (rule rmatch_SeqE)
  from m1 obtain c2 t2 where h2: "(c2, t2) \<in> set (rmatch R True (Rep 1 None (In [Space])) t1 c1)"
    and m2: "(cs, t) \<in> set (rmatch R True (Seq (word (asc ''name='')) (Seq (quote) (Seq (word (asc ''report-month'')) (Seq (quote) (Seq (Rep 1 None (In [Space])) (Seq (word (asc ''content='')) (Seq (quote) (Seq (Group 1 (Rep 4 (Some 4) (In [Digit]))) (Seq (lit 45) (Seq (Group 2 (Rep 2 (Some 2) (In [Digit]))) (quote))))))))))) t2 c2)"
    by (rule rmatch_SeqE)
  from m2 obtain c3 t3 where h3: "(c3, t3) \<in> set (rmatch R True (word (asc ''name='')) t2 c2)"
    and m3: "(cs, t) \<in> set (rmatch R True (Seq (quote) (Seq (word (asc ''report-month'')) (Seq (quote) (Seq (Rep 1 None (In [Space])) (Seq (word (asc ''content='')) (Seq (quote) (Seq (Group 1 (Rep 4 (Some 4) (In [Digit]))) (Seq (lit 45) (Seq (Group 2 (Rep 2 (Some 2) (In [Digit]))) (quote)))))))))) t3 c3)"
    by (rule rmatch_SeqE)
  from m3 obtain c4 t4 where h4: "(c4, t4) \<in> set (rmatch R True (quote) t3 c3)"
    and m4: "(cs, t) \<in> set (rmatch R True (Seq (word (asc ''report-month'')) (Seq (quote) (Seq (Rep 1 None (In [Space])) (Seq (word (asc ''content='')) (Seq (quote) (Seq (Group 1 (Rep 4 (Some 4) (In [Digit]))) (Seq (lit 45) (Seq (Group 2 (Rep 2 (Some 2) (In [Digit]))) (quote))))))))) t4 c4)"
    by (rule rmatch_SeqE)
  from m4 obtain c5 t5 where h5: "(c5, t5) \<in> set (rmatch R True (word (asc ''report-month'')) t4 c4)"
    and m5: "(cs, t) \<in> set (rmatch R True (Seq (quote) (Seq (Rep 1 None (In [Space])) (Seq (word (asc ''content='')) (Seq (quote) (Seq (Group 1 (Rep 4 (Some 4) (In [Digit]))) (Seq (lit 45) (Seq (Group 2 (Rep 2 (Some 2) (In [Digit]))) (quote)))))))) t5 c5)"
    by (rule rmatch_SeqE)
  from m5 obtain c6 t6 where h6: "(c6, t6) \<in> set (rmatch R True (quote) t5 c5)"
    and m6: "(cs, t) \<in> set (rmatch R True (Seq (Rep 1 None (In [Space])) (Seq (word (asc ''content='')) (Seq (quote) (Seq (Group 1 (Rep 4 (Some 4) (In [Digit]))) (Seq (lit 45) (Seq (Group 2 (Rep 2 (Some 2) (In [Digit]))) (quote))))))) t6 c6)"
    by (rule rmatch_SeqE)
  from m6 obtain c7 t7 where h7: "(c7, t7) \<in> set (rmatch R True (Rep 1 None (In [Space])) t6 c6)"
    and m7: "(cs, t) \<in> set (rmatch R True (Seq (word (asc ''content='')) (Seq (quote) (Seq (Group 1 (Rep 4 (Some 4) (In [Digit]))) (Seq (lit 45) (Seq (Group 2 (Rep 2 (Some 2) (In [Digit]))) (quote)))))) t7 c7)"
    by (rule rmatch_SeqE)
  from m7 obtain c8 t8 where h8: "(c8, t8) \<in> set (rmatch R True (word (asc ''content='')) t7 c7)"
    and m8: "(cs, t) \<in> set (rmatch R True (Seq (quote) (Seq (Group 1 (Rep 4 (Some 4) (In [Digit]))) (Seq (lit 45) (Seq (Group 2 (Rep 2 (Some 2) (In [Digit]))) (quote))))) t8 c8)"
    by (rule rmatch_SeqE)
  from m8 obtain c9 t9 where h9: "(c9, t9) \<in> set (rmatch R True (quote) t8 c8)"
    and m9: "(cs, t) \<in> set (rmatch R True (Seq (Group 1 (Rep 4 (Some 4) (In [Digit]))) (Seq (lit 45) (Seq (Group 2 (Rep 2 (Some 2) (In [Digit]))) (quote)))) t9 c9)"
    by (rule rmatch_SeqE)
  from m9 obtain c10 t10 where h10: "(c10, t10) \<in> set (rmatch R True (Group 1 (Rep 4 (Some 4) (In [Digit]))) t9 c9)"
    and m10: "(cs, t) \<in> set (rmatch R True (Seq (lit 45) (Seq (Group 2 (Rep 2 (Some 2) (In [Digit]))) (quote))) t10 c10)"
    by (rule rmatch_SeqE)
  from m10 obtain c11 t11 where h11: "(c11, t11) \<in> set (rmatch R True (lit 45) t10 c10)"
    and m11: "(cs, t) \<in> set (rmatch R True (Seq (Group 2 (Rep 2 (Some 2) (In [Digit]))) (quote)) t11 c11)"
    by (rule rmatch_SeqE)
  from m11 obtain c12 t12 where h12: "(c12, t12) \<in> set (rmatch R True (Group 2 (Rep 2 (Some 2) (In [Digit]))) t11 c11)"
    and m12: "(cs, t) \<in> set (rmatch R True (quote) t12 c12)"
    by (rule rmatch_SeqE)
  from h1 obtain u1 where 1: "s = u1 @ t1" "matches R True (word (asc ''<meta'')) u1 t1" "c1 = Map.empty"
    by (rule rmatch_plain) simp
  from h2 obtain u2 where 2: "t1 = u2 @ t2" "matches R True (Rep 1 None (In [Space])) u2 t2" "c2 = c1"
    by (rule rmatch_plain) simp
  from h3 obtain u3 where 3: "t2 = u3 @ t3" "matches R True (word (asc ''name='')) u3 t3" "c3 = c2"
    by (rule rmatch_plain) simp
  from h4 obtain u4 where 4: "t3 = u4 @ t4" "matches R True quote u4 t4" "c4 = c3"
    by (rule rmatch_plain) simp
  from h5 obtain u5 where 5: "t4 = u5 @ t5" "matches R True (word (asc ''report-month'')) u5 t5" "c5 = c4"
    by (rule rmatch_plain) simp
  from h6 obtain u6 where 6: "t5 = u6 @ t6" "matches R True quote u6 t6" "c6 = c5"
    by (rule rmatch_plain) simp
  from h7 obtain u7 where 7: "t6 = u7 @ t7" "matches R True (Rep 1 None (In [Space])) u7 t7" "c7 = c6"
    by (rule rmatch_plain) simp
  from h8 obtain u8 where 8: "t7 = u8 @ t8" "matches R True (word (asc ''content='')) u8 t8" "c8 = c7"
    by (rule rmatch_plain) simp
  from h9 obtain u9 where 9: "t8 = u9 @ t9" "matches R True quote u9 t9" "c9 = c8"
    by (rule rmatch_plain) simp
  from h10 obtain ys where 10: "t9 = ys @ t10" "length ys = 4" "list_all (is_digit R) ys" "c10 = c9(1 \<mapsto> ys)"
    by (rule rmatch_group_digits)
  from h11 obtain u11 where 11: "t10 = u11 @ t11" "matches R True (lit 45) u11 t11" "c11 = c10"
    by (rule rmatch_plain) simp
  from h12 obtain ms where 12: "t11 = ms @ t12" "length ms = 2" "list_all (is_digit R) ms" "c12 = c11(2 \<mapsto> ms)"
    by (rule rmatch_group_digits)
  from m12 obtain u13 where 13: "t12 = u13 @ t" "matches R True quote u13 t" "cs = c12"
    by (rule rmatch_plain) simp
  from 4(2) obtain q1 where q1: "u4 = [q1]" "is_quote R q1" unfolding matches_quote by blast
  from 6(2) obtain q2 where q2: "u6 = [q2]" "is_quote R q2" unfolding matches_quote by blast
  from 9(2) obtain q3 where q3: "u9 = [q3]" "is_quote R q3" unfolding matches_quote by blast
  from 13(2) obtain q4 where q4: "u13 = [q4]" "is_quote R q4" unfolding matches_quote by blast
  from 11(2) obtain h where h: "u11 = [h]" "ci_accepts R 45 h" unfolding matches_lit by blast
  have eq: "s = u1 @ u2 @ u3 @ [q1] @ u5 @ [q2] @ u7 @ u8 @ [q3] @ ys @ [h] @ ms @ [q4] @ t"
    using 1(1) 2(1) 3(1) 4(1) 5(1) 6(1) 7(1) 8(1) 9(1) 10(1) 11(1) 12(1) 13(1) q1(1) q2(1) q3(1) q4(1) h(1)
    by simp
  have p: "ci_word R (asc ''<meta'') u1" "u2 \<noteq> [] \<and> list_all is_space u2"
    "ci_word R (asc ''name='') u3" "ci_word R (asc ''report-month'') u5"
    "u7 \<noteq> [] \<and> list_all is_space u7" "ci_word R (asc ''content='') u8"
    using 1(2) 2(2) 3(2) 5(2) 7(2) 8(2)
    unfolding matches_word matches_ws by blast+
  have tw: "tag_with R ys ms s"
    unfolding tag_with_def
    using eq p q1(2) q2(2) q3(2) q4(2) h(2) 10(2,3) 12(2,3) by blast
  have "cs = Map.empty(1 \<mapsto> ys, 2 \<mapsto> ms)"
    using 1(3) 2(3) 3(3) 4(3) 5(3) 6(3) 7(3) 8(3) 9(3) 10(4) 11(3) 12(4) 13(3) by simp
  then have "cs 1 = Some ys" "cs 2 = Some ms" by simp_all
  with tw show ?thesis by blast
qed

lemma digits_value_total:
  "list_all (is_digit R) s \<Longrightarrow> \<exists>v. digits_value R acc s = Some v"
  by (induction s arbitrary: acc) (auto simp: is_digit_def)

lemma py_int_total:
  "list_all (is_digit R) s \<Longrightarrow> s \<noteq> [] \<Longrightarrow> \<exists>v. py_int R s = Some v"
  using digits_value_total by (simp add: py_int_def)

lemma tag_with_digits:
  "tag_with R ys ms s \<Longrightarrow> length ys = 4 \<and> list_all (is_digit R) ys \<and> length ms = 2 \<and> list_all (is_digit R) ms"
  unfolding tag_with_def by blast

lemma meta_search_groups:
  assumes "re_search R True meta_rx text = Some (i, cs, t)"
  shows "\<exists>ys ms y m. tag_with R ys ms (drop i text) \<and> (\<forall>j<i. \<not> tag_shape R (drop j text)) \<and>
           py_int R ys = Some y \<and> py_int R ms = Some m \<and>
           int_group R cs 1 = Inr y \<and> int_group R cs 2 = Inr m"
proof -
  from assms obtain ps where k: "i \<le> length text"
      "rmatch R True meta_rx (drop i text) Map.empty = (cs, t) # ps"
      "\<forall>j<i. rmatch R True meta_rx (drop j text) Map.empty = []"
    unfolding re_search_def search_from_Some by auto
  from k(2) have "(cs, t) \<in> set (rmatch R True meta_rx (drop i text) Map.empty)" by simp
  from meta_groups[OF this] obtain ys ms where g: "tag_with R ys ms (drop i text)"
    "cs 1 = Some ys" "cs 2 = Some ms" by blast
  from tag_with_digits[OF g(1)] have d: "length ys = 4" "list_all (is_digit R) ys"
    "length ms = 2" "list_all (is_digit R) ms" by blast+
  from d(1) have "ys \<noteq> []" by auto
  from py_int_total[OF d(2) this] obtain y where y: "py_int R ys = Some y" by blast
  from d(3) have "ms \<noteq> []" by auto
  from py_int_total[OF d(4) this] obtain m where m: "py_int R ms = Some m" by blast
  have first: "\<forall>j<i. \<not> tag_shape R (drop j text)"
    using k(3) meta_at_iff_shape[of R _ Map.empty] by blast
  have "int_group R cs 1 = Inr y" "int_group R cs 2 = Inr m"
    using g(2,3) y m by (simp_all add: int_group_def)
  with g(1) first y m show ?thesis by blast
qed

lemma parse_cases:
  obtains (raises) "feed R text = None" "parse R text = Inl FeedError"
  | (returns) evs where "feed R text = Some evs" "parse R text = Inr (run_events R parser_init evs)"
  by (cases "feed R text") (auto simp: parse_def)

lemma parse_Inl: "parse R text = Inl e \<longleftrightarrow> e = FeedError \<and> feed R text = None"
  by (cases "feed R text") (auto simp: parse_def)

lemma heuristic_Inl:
  "heuristic_month_year R text = Inl e \<longleftrightarrow> e = FeedError \<and> feed R text = None"
proof (cases rule: parse_cases[of R "text"])
  case raises
  then show ?thesis by (auto simp: heuristic_month_year_def)
next
  case (returns evs)
  let ?ps = "run_events R parser_init evs"
  have "\<exists>r. heuristic_month_year R text = Inr r"
  proof (cases "find_month R MONTH_COMPILED (join_sp (all_text ?ps))")
    case None
    with returns(2) show ?thesis by (simp add: heuristic_month_year_def)
  next
    case (Some a)
    obtain m lbl p where "a = (m, lbl, p)" by (cases a)
    with Some heuristic_cases[OF returns(2), of m lbl p] show ?thesis by auto
  qed
  with returns(1) show ?thesis by auto
qed

text \<open>The only exception that leaves \<open>extract_month_year\<close> is one of the tokenizer, on a
  text without the metadata tag: the groups of the metadata pattern and of the year pattern
  are always strings of digits.\<close>

lemma extract_month_year_Inl:
  "extract_month_year R text = Inl e \<longleftrightarrow>
     e = FeedError \<and> feed R text = None \<and> re_search R True meta_rx text = None"
proof (cases "re_search R True meta_rx text")
  case None
  then show ?thesis by (simp add: extract_month_year_def heuristic_Inl)
next
  case (Some a)
  obtain i cs t where a: "a = (i, cs, t)" by (cases a)
  from meta_search_groups[OF Some[unfolded a]] obtain y m where
    "int_group R cs 1 = Inr y" "int_group R cs 2 = Inr m" by blast
  with Some a show ?thesis by (simp add: extract_month_year_def)
qed

subsection \<open>The digits of a tag are determined by the text\<close>







subsection \<open>The result on the metadata path\<close>



lemma int_group_feed [simp]: "int_group (R\<lparr>feed := f\<rparr>) cs n = int_group R cs n"
  by (simp add: int_group_def split: option.splits)



section \<open>The title pattern\<close>

lemma cset_space [simp]: "cset_ok R ic (In [Space]) = is_space"
  by (simp add: fun_eq_iff)

lemma cset_title_sep [simp]: "cset_ok R False (In [Lit 58, Lit 45, Lit 8211]) = is_title_sep"
  by (auto simp: fun_eq_iff is_title_sep_def)

lemma cset_capital [simp]: "cset_ok R False (In [Range 1040 1071, Range 65 90, Lit 1025]) = is_capital"
  by (auto simp: fun_eq_iff is_capital_def)

lemma cset_plain [simp]: "cset_ok R False (NotIn [Lit 124, Lit 60, Lit 62, Lit 40, Lit 41]) = is_plain"
  by (auto simp: fun_eq_iff is_plain_def)

lemma space_not_capital: "is_space c \<Longrightarrow> \<not> is_capital c"
  by (auto simp: is_space_def is_capital_def)

lemma rep_greedy_all:
  "list_all P r \<Longrightarrow> lo \<le> length r \<Longrightarrow> \<exists>ps. rep_greedy P lo None r = [] # ps"
proof (induction r arbitrary: lo)
  case Nil
  then show ?case by simp
next
  case (Cons c r)
  from Cons.prems have "list_all P r" "lo - 1 \<le> length r" "P c" by auto
  from Cons.IH[OF this(1,2)] obtain ps where "rep_greedy P (lo - 1) None r = [] # ps" by blast
  then show ?case using \<open>P c\<close> by simp
qed

lemma rep_ws_then:
  assumes "\<And>c t'. is_space c \<Longrightarrow> f (c # t') = []"
  shows "concat (map f (rep_greedy is_space 0 None t)) = f (dropWhile is_space t)"
  by (induction t) (simp_all add: assms)

lemma title_rx_nest:
  "title_rx = Seq (Chr (In [Lit 58, Lit 45, Lit 8211])) (Seq (Rep 0 None (In [Space])) title_tail)"
  by (simp add: title_rx_def title_tail_def)

lemma title_tail_nonempty:
  "rmatch R False title_tail s cs \<noteq> [] \<longleftrightarrow>
   (\<exists>c rest. s = c # rest \<and> is_capital c \<and> 2 \<le> length rest \<and> list_all is_plain rest)"
proof
  assume "rmatch R False title_tail s cs \<noteq> []"
  then obtain w t where s: "s = w @ t" and m: "matches R False title_tail w t"
    unfolding rmatch_nonempty_iff by blast
  from m obtain c b where w: "w = c # b" "is_capital c" "2 \<le> length b" "list_all is_plain b"
    and t: "t = [] \<or> t = [10]"
    by (auto simp: title_tail_def)
  have "list_all is_plain t" using t by (auto simp: is_plain_def)
  with s w show "\<exists>c rest. s = c # rest \<and> is_capital c \<and> 2 \<le> length rest \<and> list_all is_plain rest"
    by auto
next
  assume "\<exists>c rest. s = c # rest \<and> is_capital c \<and> 2 \<le> length rest \<and> list_all is_plain rest"
  then obtain c rest where s: "s = c # rest" "is_capital c" "2 \<le> length rest" "list_all is_plain rest"
    by blast
  have "matches R False title_tail (c # rest) []"
    unfolding title_tail_def matches.simps
    by (intro exI[of _ "c # rest"] exI[of _ "[]"] conjI exI[of _ "[c]"] exI[of _ rest])
       (simp_all add: s)
  then show "rmatch R False title_tail s cs \<noteq> []"
    unfolding rmatch_nonempty_iff using s(1) by (intro exI[of _ "c # rest"] exI[of _ "[]"]) simp
qed

lemma title_tail_head:
  assumes "is_capital c" "2 \<le> length rest" "list_all is_plain rest"
  shows "\<exists>ps. rmatch R False title_tail (c # rest) cs = (cs(1 \<mapsto> c # rest), []) # ps"
proof -
  from rep_greedy_all[OF assms(3,2)] obtain qs where "rep_greedy is_plain 2 None rest = [] # qs"
    by blast
  then show ?thesis using assms(1) by (simp add: title_tail_def)
qed

lemma title_tail_space: "is_space c \<Longrightarrow> rmatch R False title_tail (c # t) cs = []"
  using title_tail_nonempty[of R "c # t" cs] space_not_capital by auto

lemma title_at:
  "rmatch R False title_rx s cs =
     (case s of [] \<Rightarrow> []
      | sep # t \<Rightarrow> if is_title_sep sep then rmatch R False title_tail (dropWhile is_space t) cs else [])"
proof (cases s)
  case Nil
  then show ?thesis by (simp add: title_rx_nest)
next
  case (Cons sep t)
  have "concat (map (\<lambda>t'. rmatch R False title_tail t' cs) (rep_greedy is_space 0 None t)) =
        rmatch R False title_tail (dropWhile is_space t) cs"
    by (rule rep_ws_then) (rule title_tail_space)
  then show ?thesis using Cons by (simp add: title_rx_nest comp_def)
qed

lemma title_at_pattern:
  "rmatch R False title_rx s cs \<noteq> [] \<longleftrightarrow> trailing_pattern 0 s"
proof (cases s)
  case Nil
  then show ?thesis by (simp add: title_at trailing_pattern_def)
next
  case (Cons sep t)
  show ?thesis
  proof (cases "dropWhile is_space t")
    case Nil
    have "rmatch R False title_tail [] cs = []"
      using title_tail_nonempty[of R "[]" cs] by simp
    then show ?thesis using Cons Nil
      by (simp add: title_at trailing_pattern_def del: dropWhile_eq_Nil_conv)
  next
    case (Cons cap rest)
    have "rmatch R False title_tail (cap # rest) cs \<noteq> [] \<longleftrightarrow>
          is_capital cap \<and> 2 \<le> length rest \<and> list_all is_plain rest"
      using title_tail_nonempty[of R "cap # rest" cs] by simp
    then show ?thesis using \<open>s = sep # t\<close> Cons
      by (simp add: title_at trailing_pattern_def)
  qed
qed

lemma title_at_head:
  assumes "trailing_pattern 0 s"
  shows "\<exists>ps. rmatch R False title_rx s cs = (cs(1 \<mapsto> dropWhile is_space (tl s)), []) # ps"
proof -
  from assms obtain sep t cap rest where s: "s = sep # t" "is_title_sep sep"
    "dropWhile is_space t = cap # rest" "is_capital cap" "2 \<le> length rest" "list_all is_plain rest"
    by (auto simp: trailing_pattern_def split: list.splits)
  from title_tail_head[OF s(4,5,6), of R cs] show ?thesis
    using s(1,2,3) by (simp add: title_at)
qed

lemma title_search:
  "search_from R False title_rx i s =
     (case find (trailing_pattern 0) (tails s) of
        None \<Rightarrow> None
      | Some v \<Rightarrow> Some (i + (length s - length v), Map.empty(1 \<mapsto> dropWhile is_space (tl v)), []))"
proof (induction s arbitrary: i)
  case Nil
  have "rmatch R False title_rx [] Map.empty = []" by (simp add: title_at)
  then show ?case by (simp add: trailing_pattern_def)
next
  case (Cons c s)
  show ?case
  proof (cases "trailing_pattern 0 (c # s)")
    case True
    from title_at_head[OF True, of R Map.empty] obtain ps where
      "rmatch R False title_rx (c # s) Map.empty = (Map.empty(1 \<mapsto> dropWhile is_space s), []) # ps"
      by auto
    then show ?thesis using True by simp
  next
    case False
    then have "rmatch R False title_rx (c # s) Map.empty = []"
      using title_at_pattern[of R "c # s" Map.empty] by simp
    moreover have "\<And>v. find (trailing_pattern 0) (tails s) = Some v \<Longrightarrow> length v \<le> length s"
    proof -
      fix v assume "find (trailing_pattern 0) (tails s) = Some v"
      then have "v \<in> set (tails s)" by (auto simp: find_Some_iff in_set_conv_nth)
      then show "length v \<le> length s" by (induction s) auto
    qed
    ultimately show ?thesis using False Cons.IH[of "Suc i"]
      by (auto split: option.splits simp: Suc_diff_le)
  qed
qed

lemma title_group_present:
  "re_search R False title_rx s = Some (i, cs, t) \<Longrightarrow> cs 1 \<noteq> None"
  by (auto simp: re_search_def title_search split: option.splits)

section \<open>Names from file names\<close>

lemma segments_Nil [simp]: "segments [] = []"
  by (simp add: segments.simps)

lemma segments_sep [simp]: "is_sep c \<Longrightarrow> segments (c # cs) = segments cs"
  by (subst (1 2) segments.simps) simp

lemma segments_nonsep [simp]:
  "\<not> is_sep c \<Longrightarrow> segments (c # cs) =
     (c # takeWhile (\<lambda>x. \<not> is_sep x) cs) # segments (dropWhile (\<lambda>x. \<not> is_sep x) cs)"
  by (subst segments.simps) simp

lemma split_runs_segments:
  "(b \<longrightarrow> cur = []) \<Longrightarrow>
   filter (\<lambda>x. x \<noteq> []) (split_runs is_sep b cur s) =
     (if cur = [] then segments s
      else (cur @ takeWhile (\<lambda>x. \<not> is_sep x) s) # segments (dropWhile (\<lambda>x. \<not> is_sep x) s))"
  by (induction s arbitrary: b cur) auto

lemma humanize_segments:
  "humanize_from_filename R stem = join_sp (map (str_capitalize R) (segments stem))"
  by (simp add: humanize_from_filename_def re_split_runs_def split_runs_segments)

lemma no_buffers_no_name:
  "parse R text = Inr ps \<Longrightarrow> title_text ps = [] \<Longrightarrow> h1_text ps = [] \<Longrightarrow>
   extract_name_from_html R text = Inr None"
  by (simp add: extract_name_from_html_def strip_def)

lemma extract_name_Inl:
  "extract_name_from_html R text = Inl e \<longleftrightarrow> e = FeedError \<and> feed R text = None"
  by (cases rule: parse_cases[of R "text"]) (auto simp: extract_name_from_html_def)

section \<open>Names that are not blank\<close>

lemma dropWhile_keeps: "x \<in> set s \<Longrightarrow> \<not> P x \<Longrightarrow> x \<in> set (dropWhile P s)"
  by (induction s) auto

lemma strip_keeps: "x \<in> set s \<Longrightarrow> \<not> is_space x \<Longrightarrow> x \<in> set (strip s)"
  unfolding strip_def by (simp add: dropWhile_keeps)

lemma strip_subset: "set (strip s) \<subseteq> set s"
proof -
  have "set (dropWhile is_space (rev (dropWhile is_space s))) \<subseteq> set (rev (dropWhile is_space s))"
    by (auto dest: set_dropWhileD)
  also have "\<dots> \<subseteq> set s" by (auto dest: set_dropWhileD)
  finally show ?thesis by (simp add: strip_def)
qed

lemma strip_hd_nonspace: "strip s \<noteq> [] \<Longrightarrow> \<exists>x\<in>set s. \<not> is_space x"
proof -
  assume a: "strip s \<noteq> []"
  then have "dropWhile is_space (rev (dropWhile is_space s)) \<noteq> []" by (simp add: strip_def)
  then have "\<not> is_space (hd (dropWhile is_space (rev (dropWhile is_space s))))"
    by (rule hd_dropWhile)
  moreover have "hd (dropWhile is_space (rev (dropWhile is_space s))) \<in> set s"
    using \<open>dropWhile is_space (rev (dropWhile is_space s)) \<noteq> []\<close>
    by (metis hd_in_set set_dropWhileD set_rev)
  ultimately show ?thesis by blast
qed

lemma strip_nonempty_iff: "strip s \<noteq> [] \<longleftrightarrow> (\<exists>x\<in>set s. \<not> is_space x)"
  using strip_hd_nonspace strip_keeps by fastforce

lemma collapse_keeps: "x \<in> set s \<Longrightarrow> \<not> is_space x \<Longrightarrow> x \<in> set (collapse_ws b s)"
  by (induction s arbitrary: b) auto

lemma post_nonempty: "\<exists>x\<in>set n. \<not> is_space x \<Longrightarrow> strip (collapse_ws b n) \<noteq> []"
  unfolding strip_nonempty_iff using collapse_keeps by blast

lemma join_sp_keeps: "x \<in> set xs \<Longrightarrow> set x \<subseteq> set (join_sp xs)"
  by (induction xs rule: join_sp.induct) auto

lemma split_runs_cover:
  "(b \<longrightarrow> cur = []) \<Longrightarrow> c \<in> set cur \<or> (c \<in> set s \<and> \<not> P c) \<Longrightarrow>
   \<exists>part\<in>set (split_runs P b cur s). c \<in> set part"
proof (induction s arbitrary: b cur)
  case Nil
  then show ?case by simp
next
  case (Cons a s)
  show ?case
  proof (cases "P a")
    case True
    show ?thesis
    proof (cases "c \<in> set cur")
      case True
      with Cons.prems(1) have "\<not> b" by auto
      with \<open>P a\<close> True show ?thesis by simp
    next
      case False
      with Cons.prems(2) \<open>P a\<close> have "c \<in> set s \<and> \<not> P c" by auto
      then have "\<exists>part\<in>set (split_runs P True [] s). c \<in> set part"
        by (intro Cons.IH) simp_all
      with \<open>P a\<close> show ?thesis by simp
    qed
  next
    case False
    have "\<exists>part\<in>set (split_runs P False (cur @ [a]) s). c \<in> set part"
      using Cons.prems(2) by (intro Cons.IH) auto
    with False show ?thesis by simp
  qed
qed

lemma capital_not_space: "is_capital c \<Longrightarrow> \<not> is_space c"
  by (auto simp: is_space_def is_capital_def)

lemma extract_name_nonblank:
  assumes "extract_name_from_html R text = Inr (Some n)"
  shows "\<exists>x\<in>set n. \<not> is_space x"
proof -
  from assms obtain ps where ps: "parse R text = Inr ps"
    by (cases "parse R text") (auto simp: extract_name_from_html_def)
  define title where "title = strip (join_sp (title_text ps))"
  define h1 where "h1 = strip (join_sp (h1_text ps))"
  have keep: "\<exists>x\<in>set (strip s). \<not> is_space x" if "strip s \<noteq> []" for s
    using that strip_hd_nonspace[OF that] strip_keeps by blast
  show ?thesis
  proof (cases "title = []")
    case True
    with assms ps have "h1 \<noteq> []" "n = h1"
      by (auto simp: extract_name_from_html_def Let_def title_def h1_def split: if_splits)
    then show ?thesis using keep[of "join_sp (h1_text ps)"] by (simp add: h1_def)
  next
    case False
    show ?thesis
    proof (cases "find (trailing_pattern 0) (tails title)")
      case None
      with False assms ps have "n = title"
        by (simp add: extract_name_from_html_def Let_def title_def re_search_def title_search)
      then show ?thesis using False keep[of "join_sp (title_text ps)"]
        by (simp add: title_def)
    next
      case (Some v)
      with False assms ps have n: "n = strip (dropWhile is_space (tl v))"
        by (simp add: extract_name_from_html_def Let_def title_def re_search_def title_search)
      from Some have "trailing_pattern 0 v" by (auto simp: find_Some_iff)
      then obtain cap rest where "dropWhile is_space (tl v) = cap # rest" "is_capital cap"
        by (auto simp: trailing_pattern_def split: list.splits)
      then have "cap \<in> set (dropWhile is_space (tl v))" "\<not> is_space cap"
        using capital_not_space by auto
      then show ?thesis unfolding n using strip_keeps by blast
    qed
  qed
qed

section \<open>Exceptions\<close>

text \<open>The name of a document fails to be made exactly when the tokenizer raises.\<close>

lemma display_name_Inl:
  "display_name R text stem = Inl e \<longleftrightarrow> e = FeedError \<and> feed R text = None"
proof (cases "extract_name_from_html R text")
  case (Inl a)
  then have "a = FeedError \<and> feed R text = None" unfolding extract_name_Inl .
  with Inl show ?thesis by (auto simp: display_name_def)
next
  case (Inr found)
  have "feed R text \<noteq> None"
  proof
    assume "feed R text = None"
    then have "extract_name_from_html R text = Inl FeedError" unfolding extract_name_Inl by simp
    with Inr show False by simp
  qed
  with Inr show ?thesis by (simp add: display_name_def Let_def)
qed

text \<open>The body of the loop in \<open>main\<close> raises exactly when the tokenizer does.\<close>

lemma make_item_Inl:
  "make_item R file_name text = Inl e \<longleftrightarrow> e = FeedError \<and> feed R text = None"
proof (cases "display_name R text (path_stem file_name)")
  case (Inl a)
  then have "a = FeedError \<and> feed R text = None" unfolding display_name_Inl .
  with Inl show ?thesis by (auto simp: make_item_def)
next
  case (Inr shown)
  have ret: "feed R text \<noteq> None"
  proof
    assume "feed R text = None"
    then have "display_name R text (path_stem file_name) = Inl FeedError"
      unfolding display_name_Inl by simp
    with Inr show False by simp
  qed
  obtain r where r: "extract_month_year R text = Inr r"
  proof (cases "extract_month_year R text")
    case (Inl a)
    then have "feed R text = None" unfolding extract_month_year_Inl by blast
    with ret show ?thesis by (rule notE)
  next
    case (Inr r)
    then show ?thesis by (rule that)
  qed
  obtain m y mn where "r = (m, y, mn)" by (cases r)
  with Inr r ret show ?thesis by (simp add: make_item_def)
qed

section \<open>Evaluation on the example documents\<close>

lemmas rx_eval = re_search_def lit_def quote_def opt_def soft_or_ya_def
  ci_accepts_def ascii_lower_def is_space_def decimal_def basic_def basic_lower_def
lemmas doc_eval = parse_def run_events_def parser_init_def handle_data_def handle_starttag_def
  handle_endtag_def strip_def tag_event_def Let_def

lemma doc3_a: "re_search basic True meta_rx doc3 = None"
  by (simp add: doc3_def asc_def meta_rx_def rx_eval)
lemma doc3_b: "(7, [1048, 1102, 1083, 1100], Seq (word [1080, 1102, 1083]) soft_or_ya) \<in> set MONTH_COMPILED"
  by (simp add: MONTH_COMPILED_def MONTHS_def)
lemma doc3_p: "parse basic doc3 = Inr (parser_init\<lparr>all_text := [doc3]\<rparr>)"
  by (simp add: doc3_def asc_def doc_eval rx_eval)
lemma doc3_e: "re_search basic True (Seq (word [1080, 1102, 1083]) soft_or_ya) doc3 \<noteq> None"
  by (simp add: doc3_def asc_def rx_eval)

lemma doc3_f: "find_month basic MONTH_COMPILED doc3 = Some (3, [1052, 1072, 1088, 1090], 11)"
  by (simp add: MONTH_COMPILED_def MONTHS_def doc3_def asc_def rx_eval)

lemma doc3_d: "extract_month_year basic doc3 = Inr (Some 3, Some 2024, Some [1052, 1072, 1088, 1090])"
proof -
  have len: "length doc3 = 20" by (simp add: doc3_def asc_def)
  have sl: "py_slice doc3 0 20 = doc3" by (simp add: py_slice_def len)
  have y: "re_search basic False YEAR_RE doc3 = Some (5, Map.empty(1 \<mapsto> [50, 48, 50, 52]), drop 9 doc3)"
    by (simp add: doc3_def asc_def YEAR_RE_def rx_eval)
  have g: "int_group basic (Map.empty(1 \<mapsto> [50, 48, 50, 52])) 1 = Inr 2024"
    by (simp add: int_group_def py_int_def decimal_def)
  show ?thesis using g
    by (simp add: extract_month_year_def doc3_a heuristic_month_year_def doc3_p doc3_f len sl y)
qed

lemma doc4_a: "re_search basic True meta_rx doc4 = None"
  by (simp add: doc4_def asc_def meta_rx_def rx_eval)
lemma doc4_p: "parse basic doc4 = Inr (parser_init\<lparr>all_text := [doc4]\<rparr>)"
  by (simp add: doc4_def asc_def doc_eval rx_eval)
lemma doc4_f: "find_month basic MONTH_COMPILED doc4 = Some (3, [1052, 1072, 1088, 1090], 0)"
  by (simp add: MONTH_COMPILED_def MONTHS_def doc4_def asc_def rx_eval)
lemma doc4_w: "map ((!) doc4) [0 - 40 ..< min (length doc4) (0 + 40)] =
    [1084, 1072, 1088, 1090] @ asc ''....................................''"
  by (simp add: doc4_def asc_def upt_rec nth_Cons')
lemma doc3_w: "map ((!) doc3) [11 - 40 ..< min (length doc3) (11 + 40)] = doc3"
  by (simp add: doc3_def asc_def upt_rec nth_Cons')

lemma doc3_split: "doc3 = [1080, 1102, 1083, 1100, 32] @ [50, 48, 50, 52] @
    (asc '', '' @ [1084, 1072, 1088, 1090] @ asc '' 2025'')"
  by (simp add: doc3_def asc_def)

lemma doc3_first_year:
  assumes "doc3 = u' @ [50, 48, c', d'] @ v'"
  shows "length [1080, 1102, 1083, 1100, 32::nat] \<le> length u'"
proof (rule ccontr)
  assume "\<not> length [1080, 1102, 1083, 1100, 32::nat] \<le> length u'"
  then have k: "length u' < 5" by simp
  have "doc3 ! length u' = 50" by (subst assms) (simp add: nth_append)
  moreover have "\<forall>k<5. doc3 ! k \<noteq> 50"
    by (simp add: doc3_def asc_def All_less_Suc numeral_eq_Suc)
  ultimately show False using k by blast
qed

lemma doc4_no_year:
  assumes "[1084, 1072, 1088, 1090] @ asc ''....................................'' = u @ [50, 48, c, d] @ v"
  shows "decimal basic c = None \<or> decimal basic d = None"
proof -
  have "50 \<in> set (u @ [50, 48, c, d] @ v)" by simp
  then have "50 \<in> set ([1084, 1072, 1088, 1090] @ asc ''....................................'')"
    by (simp only: assms)
  then show ?thesis by (simp add: asc_def)
qed








lemma plain_spaces_basic: "plain_spaces basic"
  unfolding plain_spaces_def by (auto simp: is_space_def rx_eval)



lemma blob9_f: "find_month basic MONTH_COMPILED [1084, 1072, 1088, 1090, 32, 50, 48, 50, 52]
    = Some (3, [1052, 1072, 1088, 1090], 0)"
  by (simp add: MONTH_COMPILED_def MONTHS_def rx_eval)
lemma blob9_sl: "py_slice [1084, 1072, 1088, 1090, 32, 50, 48, 50, 52::nat] (max 0 (int 0 - 40))
     (min (int (length [1084, 1072, 1088, 1090, 32, 50, 48, 50, 52::nat])) (int 0 + 40))
    = [1084, 1072, 1088, 1090, 32, 50, 48, 50, 52]"
  by (simp add: py_slice_def)
lemma blob9_y: "re_search basic False YEAR_RE [1084, 1072, 1088, 1090, 32, 50, 48, 50, 52]
    = Some (5, Map.empty(1 \<mapsto> [50, 48, 50, 52]), [])"
  by (simp add: YEAR_RE_def rx_eval)
lemma year_2024: "int_group basic (Map.empty(1 \<mapsto> [50, 48, 50, 52])) 1 = Inr 2024"
  by (simp add: int_group_def py_int_def decimal_def)

lemma doc9a_n: "re_search basic True meta_rx doc9a = None"
  by (simp add: doc9a_def asc_def meta_rx_def rx_eval)
lemma doc9b_n: "re_search basic True meta_rx doc9b = None"
  by (simp add: doc9b_def asc_def meta_rx_def rx_eval)
lemma doc9a_p: "parse basic doc9a = Inr (parser_init\<lparr>all_text := [[1084, 1072, 1088, 1090, 32, 50, 48, 50, 52]]\<rparr>)"
  by (simp add: doc9a_def asc_def doc_eval rx_eval)
lemma doc9b_p: "parse basic doc9b = Inr (parser_init\<lparr>all_text := [[1084, 1072, 1088, 1090, 32, 50, 48, 50, 52]]\<rparr>)"
  by (simp add: doc9b_def asc_def doc_eval rx_eval)
lemma blob9: "join_sp (all_text (parser_init\<lparr>all_text := [[1084, 1072, 1088, 1090, 32, 50, 48, 50, 52]]\<rparr>))
    = [1084, 1072, 1088, 1090, 32, 50, 48, 50, 52]"
  by simp

lemma t5a: "parse basic (asc ''<title>E-Commerce</title>'') =
    Inr (parser_init\<lparr>title_text := [asc ''E-Commerce''], all_text := [asc ''E-Commerce'']\<rparr>)"
  by (simp add: asc_def doc_eval rx_eval)

lemma t5a': "strip (join_sp [asc ''E-Commerce'']) = asc ''E-Commerce''"
  by (simp add: asc_def strip_def is_space_def)

lemma t5b: "find (trailing_pattern 1) (tails (asc ''E-Commerce'')) = None"
  by (simp add: asc_def trailing_pattern_def is_title_sep_def is_capital_def is_space_def)

lemma t5c: "find (trailing_pattern 0) (tails (asc ''E-Commerce'')) = Some (asc ''-Commerce'')"
  by (simp add: asc_def trailing_pattern_def is_title_sep_def is_capital_def is_space_def is_plain_def)

lemma t5d: "parse basic (asc ''<title>Monthly Report: Ivanov Petrov</title>'') =
    Inr (parser_init\<lparr>title_text := [asc ''Monthly Report: Ivanov Petrov''],
                     all_text := [asc ''Monthly Report: Ivanov Petrov'']\<rparr>)"
  by (simp add: asc_def doc_eval rx_eval)

lemma t5d': "strip (join_sp [asc ''Monthly Report: Ivanov Petrov'']) = asc ''Monthly Report: Ivanov Petrov''"
  by (simp add: asc_def strip_def is_space_def)

lemma t5e: "find (trailing_pattern 0) (tails (asc ''Monthly Report: Ivanov Petrov'')) = Some (asc '': Ivanov Petrov'')"
  by (simp add: asc_def trailing_pattern_def is_title_sep_def is_capital_def is_space_def is_plain_def)

lemma t5f: "parse basic (asc ''<title>Monthly Summary</title>'') =
    Inr (parser_init\<lparr>title_text := [asc ''Monthly Summary''], all_text := [asc ''Monthly Summary'']\<rparr>)"
  by (simp add: asc_def doc_eval rx_eval)

lemma t5f': "strip (join_sp [asc ''Monthly Summary'']) = asc ''Monthly Summary''"
  by (simp add: asc_def strip_def is_space_def)

lemma t5g: "find (trailing_pattern 0) (tails (asc ''Monthly Summary'')) = None"
  by (simp add: asc_def trailing_pattern_def is_title_sep_def is_capital_def is_space_def is_plain_def)

lemma t5h: "parse basic doc5 = Inr (parser_init\<lparr>title_text := [title5], all_text := [title5]\<rparr>)"
  by (simp add: doc5_def title5_def asc_def doc_eval rx_eval)

lemma t5h': "strip (join_sp [title5]) = title5"
  by (simp add: title5_def asc_def strip_def is_space_def)

lemma t5i: "find (trailing_pattern 0) (tails title5) = None"
  by (simp add: title5_def asc_def trailing_pattern_def is_title_sep_def is_capital_def is_space_def is_plain_def)

lemma t5j: "extract_name_from_html basic doc5 = Inr (Some title5)"
proof -
  have n: "title5 \<noteq> []" by (simp add: title5_def)
  have "title5 = strip (join_sp (title_text (parser_init\<lparr>title_text := [title5], all_text := [title5]\<rparr>)))"
    using t5h' by simp
  then show ?thesis using t5h n t5i
    by (simp add: extract_name_from_html_def Let_def re_search_def title_search)
qed

lemma seg7: "segments (asc ''report_2025_07'') = [asc ''report'', asc ''2025'', asc ''07'']"
  by (simp add: asc_def is_sep_def)

lemma hum7: "join_sp (map (str_capitalize basic) [asc ''report'', asc ''2025'', asc ''07'']) = asc ''Report 2025 07''"
  by (simp add: asc_def basic_def basic_capitalize_def basic_upper_def basic_lower_def)

lemma post7: "strip (collapse_ws False (asc ''Report 2025 07'')) = asc ''Report 2025 07''"
  by (simp add: asc_def strip_def is_space_def)

lemma empty7: "parse basic [] = Inr parser_init"
  by (simp add: doc_eval rx_eval)

lemma init7: "title_text parser_init = []" "h1_text parser_init = []"
  by (simp_all add: parser_init_def)

lemma seg7c: "segments (asc ''my_REPORT'') = [asc ''my'', asc ''REPORT'']"
  by (simp add: asc_def is_sep_def)

lemma letter_not_space:
  "65 \<le> x \<and> x \<le> 122 \<or> 1025 \<le> x \<and> x \<le> 1105 \<Longrightarrow> \<not> is_space x"
  unfolding is_space_def by linarith

lemma basic_upper_cases:
  "basic_upper c = c \<or> 65 \<le> basic_upper c \<and> basic_upper c \<le> 122 \<or>
   1025 \<le> basic_upper c \<and> basic_upper c \<le> 1105"
  unfolding basic_upper_def by (auto split: if_splits)

lemma basic_lower_cases:
  "basic_lower c = c \<or> 65 \<le> basic_lower c \<and> basic_lower c \<le> 122 \<or>
   1025 \<le> basic_lower c \<and> basic_lower c \<le> 1105"
  unfolding basic_lower_def by (auto split: if_splits)

lemma basic_case_nonspace:
  "\<not> is_space c \<Longrightarrow> \<not> is_space (basic_upper c)" "\<not> is_space c \<Longrightarrow> \<not> is_space (basic_lower c)"
  using basic_upper_cases[of c] basic_lower_cases[of c] letter_not_space by metis+

lemma basic_capitalize_nonblank:
  "\<forall>s. (\<exists>c\<in>set s. \<not> is_space c) \<longrightarrow> (\<exists>c\<in>set (str_capitalize basic s). \<not> is_space c)"
proof (intro allI impI)
  fix s :: ustring assume "\<exists>c\<in>set s. \<not> is_space c"
  then obtain c where c: "c \<in> set s" "\<not> is_space c" by blast
  then obtain a t where s: "s = a # t" by (cases s) auto
  show "\<exists>c\<in>set (str_capitalize basic s). \<not> is_space c"
  proof (cases "c = a")
    case True
    then show ?thesis using c(2) s basic_case_nonspace(1)
      by (auto simp: basic_def basic_capitalize_def)
  next
    case False
    with c s have "c \<in> set t" by simp
    then have "basic_lower c \<in> set (str_capitalize basic s)"
      using s by (simp add: basic_def basic_capitalize_def)
    then show ?thesis using c(2) basic_case_nonspace(2) by blast
  qed
qed

section \<open>The claims\<close>

text \<open>
  C1. The claim is that the month and its label are returned both present or both absent.
  On a metadata tag whose month is outside 1 to 12 the function returns the month number
  without a label: the label comes from \<open>MONTHS.get\<close> with a default, the number is
  returned as parsed. The source's own comment on the \<open>month\<close> field of the index entry
  reads "1..12 or null".
\<close>

theorem C1_month_without_name:
  "extract_month_year basic (asc ''<meta name=\"report-month\" content=\"2025-13\">'')
     = Inr (Some 13, Some 2025, None) \<and>
   make_item basic (asc ''r.html'') (asc ''<meta name=\"report-month\" content=\"2025-13\">'')
     = Inr \<lparr>name = asc ''R'', url = asc ''reports/r.html'',
            month = Some 13, month_name = None, year = Some 2025\<rparr>"
proof -
  have e: "extract_month_year basic (asc ''<meta name=\"report-month\" content=\"2025-13\">'')
     = Inr (Some 13, Some 2025, None)"
    by (simp add: extract_month_year_def re_search_def meta_rx_def asc_def lit_def quote_def
        ci_accepts_def ascii_lower_def is_space_def decimal_def basic_def int_group_def py_int_def
        MONTHS_def)
  have p: "parse basic (asc ''<meta name=\"report-month\" content=\"2025-13\">'') = Inr parser_init"
    by (simp add: asc_def doc_eval rx_eval)
  have n: "extract_name_from_html basic (asc ''<meta name=\"report-month\" content=\"2025-13\">'') = Inr None"
    by (rule no_buffers_no_name[OF p]) (simp_all add: parser_init_def)
  have st: "path_stem (asc ''r.html'') = asc ''r''"
    by (simp add: path_stem_def rfind_def asc_def)
  have d: "display_name basic (asc ''<meta name=\"report-month\" content=\"2025-13\">'') (asc ''r'')
      = Inr (asc ''R'')"
    unfolding display_name_def n
    by (simp add: humanize_from_filename_def re_split_runs_def is_sep_def asc_def basic_def
        basic_capitalize_def basic_upper_def strip_def is_space_def)
  show ?thesis unfolding make_item_def e st d by (simp add: asc_def)
qed




text \<open>
  C3. In a document without the metadata tag, scanned by the tokenizer without an
  exception, if some month pattern is found in the blob of visible text, the month
  returned is the one with the smallest number among the months whose pattern is found
  there: the patterns are tried in ascending order of the month number and the first that
  is found wins, wherever in the blob the others occur.
\<close>

theorem C3_smallest_matching_month:
  assumes "re_search R True meta_rx text = None"
    and "parse R text = Inr ps"
    and "blob = join_sp (all_text ps)"
    and "(n, nm, r) \<in> set MONTH_COMPILED"
    and "re_search R True r blob \<noteq> None"
  shows "\<exists>m y lbl rm. extract_month_year R text = Inr (Some m, y, Some lbl) \<and>
           (m, lbl, rm) \<in> set MONTH_COMPILED \<and> re_search R True rm blob \<noteq> None \<and> m \<le> n \<and>
           (\<forall>k nm' rk. (k, nm', rk) \<in> set MONTH_COMPILED \<and> k < m \<longrightarrow> re_search R True rk blob = None)"
proof -
  have "find_month R MONTH_COMPILED blob \<noteq> None"
  proof
    assume "find_month R MONTH_COMPILED blob = None"
    then have "re_search R True (snd (snd (n, nm, r))) blob = None"
      using assms(4) unfolding find_month_None by blast
    with assms(5) show False by simp
  qed
  then obtain m lbl p where f: "find_month R MONTH_COMPILED blob = Some (m, lbl, p)"
    by (cases "find_month R MONTH_COMPILED blob") auto
  from find_month_Some[OF f] obtain i rm cs t where i: "i < length MONTH_COMPILED"
    "MONTH_COMPILED ! i = (m, lbl, rm)" "re_search R True rm blob = Some (p, cs, t)"
    "\<forall>j<i. re_search R True (snd (snd (MONTH_COMPILED ! j))) blob = None" by blast
  have mi: "m = int i + 1" using month_number_at[OF i(1)] i(2) by simp
  have earlier: "re_search R True rk blob = None" if "(k, nm', rk) \<in> set MONTH_COMPILED" "k < m" for k nm' rk
  proof -
    from that(1) obtain j where j: "j < length MONTH_COMPILED" "MONTH_COMPILED ! j = (k, nm', rk)"
      by (auto simp: in_set_conv_nth)
    have "k = int j + 1" using month_number_at[OF j(1)] j(2) by simp
    with that(2) mi have "j < i" by simp
    with i(4) j(2) show ?thesis by force
  qed
  have le: "m \<le> n"
  proof (rule ccontr)
    assume "\<not> m \<le> n"
    then have "n < m" by simp
    from earlier[OF assms(4) this] assms(5) show False by simp
  qed
  from heuristic_cases[OF assms(2), of m lbl p] f assms(3) obtain y where
    "heuristic_month_year R text = Inr (Some m, y, Some lbl)" by auto
  then have ex: "extract_month_year R text = Inr (Some m, y, Some lbl)"
    using assms(1) by (simp add: extract_month_year_def)
  have mem: "(m, lbl, rm) \<in> set MONTH_COMPILED" using i(1,2) by (metis nth_mem)
  have ne: "re_search R True rm blob \<noteq> None" using i(3) by simp
  from ex mem ne le earlier show ?thesis by blast
qed

theorem C3_smallest_matching_month_witness:
  "re_search basic True meta_rx doc3 = None \<and>
   parse basic doc3 = Inr (parser_init\<lparr>all_text := [doc3]\<rparr>) \<and>
   doc3 = join_sp (all_text (parser_init\<lparr>all_text := [doc3]\<rparr>)) \<and>
   (7, [1048, 1102, 1083, 1100], Seq (word [1080, 1102, 1083]) soft_or_ya) \<in> set MONTH_COMPILED \<and>
   re_search basic True (Seq (word [1080, 1102, 1083]) soft_or_ya) doc3 \<noteq> None \<and>
   (\<exists>m y lbl rm. extract_month_year basic doc3 = Inr (Some m, y, Some lbl) \<and>
      (m, lbl, rm) \<in> set MONTH_COMPILED \<and>
      re_search basic True rm doc3 \<noteq> None \<and> m \<le> 7 \<and>
      (\<forall>k nm' rk. (k, nm', rk) \<in> set MONTH_COMPILED \<and> k < m \<longrightarrow>
         re_search basic True rk doc3 = None)) \<and>
   extract_month_year basic doc3 = Inr (Some 3, Some 2024, Some [1052, 1072, 1088, 1090])"
proof -
  have b: "doc3 = join_sp (all_text (parser_init\<lparr>all_text := [doc3]\<rparr>))" by simp
  from C3_smallest_matching_month[OF doc3_a doc3_p b doc3_b doc3_e] doc3_a doc3_p b doc3_b doc3_e doc3_d
  show ?thesis by blast
qed

text \<open>
  C4. On the heuristic path (no metadata tag, and the tokenizer has returned the visible
  text), with the month found at offset \<open>p\<close> of the blob, the year
  returned is the value of the first four-character sequence "20" followed by two digits in
  the window of the blob from offset \<open>p - 40\<close> (not below 0) up to, not including,
  offset \<open>p + 40\<close> (not beyond the end of the blob); when the window holds no such
  sequence the year is absent, and the month and its label are returned all the same.
\<close>

theorem C4_year_in_window:
  assumes "re_search R True meta_rx text = None"
    and "parse R text = Inr ps"
    and "blob = join_sp (all_text ps)"
    and "find_month R MONTH_COMPILED blob = Some (m, lbl, p)"
    and "around = map ((!) blob) [p - 40 ..< min (length blob) (p + 40)]"
  shows "(\<forall>u c d v vc vd.
            around = u @ [50, 48, c, d] @ v \<and> decimal R c = Some vc \<and> decimal R d = Some vd \<and>
            (\<forall>u' c' d' v'. around = u' @ [50, 48, c', d'] @ v' \<and>
                 decimal R c' \<noteq> None \<and> decimal R d' \<noteq> None \<longrightarrow> length u \<le> length u')
            \<longrightarrow> extract_month_year R text =
                  Inr (Some m, Some (2000 + 10 * int vc + int vd), Some lbl)) \<and>
         ((\<forall>u c d v. around = u @ [50, 48, c, d] @ v \<longrightarrow> decimal R c = None \<or> decimal R d = None)
            \<longrightarrow> extract_month_year R text = Inr (Some m, None, Some lbl))"
proof -
  have ar: "py_slice blob (max 0 (int p - 40)) (min (int (length blob)) (int p + 40)) = around"
    using assms(5) by (simp only: py_slice_window)
  have ex: "extract_month_year R text = heuristic_month_year R text"
    using assms(1) by (simp add: extract_month_year_def)
  have h: "heuristic_month_year R text =
      (case re_search R False YEAR_RE around of
         None \<Rightarrow> Inr (Some m, None, Some lbl)
       | Some (_, cs, _) \<Rightarrow>
           (case int_group R cs 1 of Inl e \<Rightarrow> Inl e
            | Inr yr \<Rightarrow> Inr (Some m, Some yr, Some lbl)))"
    using assms(2,3,4) ar by (simp add: heuristic_month_year_def Let_def)
  show ?thesis
  proof (intro conjI allI impI)
    fix u c d v vc vd
    assume a: "around = u @ [50, 48, c, d] @ v \<and> decimal R c = Some vc \<and> decimal R d = Some vd \<and>
            (\<forall>u' c' d' v'. around = u' @ [50, 48, c', d'] @ v' \<and>
                 decimal R c' \<noteq> None \<and> decimal R d' \<noteq> None \<longrightarrow> length u \<le> length u')"
    then have s: "re_search R False YEAR_RE around = Some (length u, Map.empty(1 \<mapsto> [50, 48, c, d]), v)"
      by (intro year_search_first) blast+
    have g: "int_group R (Map.empty(1 \<mapsto> [50, 48, c, d])) 1 = Inr (2000 + 10 * int vc + int vd)"
      using a by (intro int_group_year) auto
    show "extract_month_year R text = Inr (Some m, Some (2000 + 10 * int vc + int vd), Some lbl)"
      using ex h s g by simp
  next
    assume "\<forall>u c d v. around = u @ [50, 48, c, d] @ v \<longrightarrow> decimal R c = None \<or> decimal R d = None"
    then have "re_search R False YEAR_RE around = None" by (rule year_search_none)
    then show "extract_month_year R text = Inr (Some m, None, Some lbl)" using ex h by simp
  qed
qed

theorem C4_year_in_window_witness:
  "re_search basic True meta_rx doc3 = None \<and>
   parse basic doc3 = Inr (parser_init\<lparr>all_text := [doc3]\<rparr>) \<and>
   doc3 = join_sp (all_text (parser_init\<lparr>all_text := [doc3]\<rparr>)) \<and>
   find_month basic MONTH_COMPILED doc3 = Some (3, [1052, 1072, 1088, 1090], 11) \<and>
   map ((!) doc3) [11 - 40 ..< min (length doc3) (11 + 40)] =
     [1080, 1102, 1083, 1100, 32] @ [50, 48, 50, 52] @
     (asc '', '' @ [1084, 1072, 1088, 1090] @ asc '' 2025'') \<and>
   decimal basic 50 = Some 2 \<and> decimal basic 52 = Some 4 \<and>
   (\<nexists>u' c' d' v'. map ((!) doc3) [11 - 40 ..< min (length doc3) (11 + 40)] = u' @ [50, 48, c', d'] @ v' \<and>
        decimal basic c' \<noteq> None \<and> decimal basic d' \<noteq> None \<and>
        length u' < length [1080, 1102, 1083, 1100, 32::nat]) \<and>
   extract_month_year basic doc3 = Inr (Some 3, Some (2000 + 10 * int 2 + int 4), Some [1052, 1072, 1088, 1090]) \<and>
   re_search basic True meta_rx doc4 = None \<and>
   parse basic doc4 = Inr (parser_init\<lparr>all_text := [doc4]\<rparr>) \<and>
   doc4 = join_sp (all_text (parser_init\<lparr>all_text := [doc4]\<rparr>)) \<and>
   find_month basic MONTH_COMPILED doc4 = Some (3, [1052, 1072, 1088, 1090], 0) \<and>
   (\<nexists>u c d v. map ((!) doc4) [0 - 40 ..< min (length doc4) (0 + 40)] = u @ [50, 48, c, d] @ v \<and>
        decimal basic c \<noteq> None \<and> decimal basic d \<noteq> None) \<and>
   extract_month_year basic doc4 = Inr (Some 3, None, Some [1052, 1072, 1088, 1090])"
proof -
  let ?w3 = "map ((!) doc3) [11 - 40 ..< min (length doc3) (11 + 40)]"
  let ?w4 = "map ((!) doc4) [0 - 40 ..< min (length doc4) (0 + 40)]"
  have s3: "?w3 = [1080, 1102, 1083, 1100, 32] @ [50, 48, 50, 52] @
     (asc '', '' @ [1084, 1072, 1088, 1090] @ asc '' 2025'')"
    unfolding doc3_w by (rule doc3_split)
  have d2: "decimal basic 50 = Some 2" and d4: "decimal basic 52 = Some 4"
    by (simp_all add: decimal_def)
  have min3: "\<forall>u' c' d' v'. ?w3 = u' @ [50, 48, c', d'] @ v' \<and>
        decimal basic c' \<noteq> None \<and> decimal basic d' \<noteq> None
        \<longrightarrow> length [1080, 1102, 1083, 1100, 32::nat] \<le> length u'"
    unfolding doc3_w using doc3_first_year by blast
  have no4: "\<forall>u c d v. ?w4 = u @ [50, 48, c, d] @ v
        \<longrightarrow> decimal basic c = None \<or> decimal basic d = None"
    unfolding doc4_w using doc4_no_year by blast
  have b3: "doc3 = join_sp (all_text (parser_init\<lparr>all_text := [doc3]\<rparr>))" by simp
  have b4: "doc4 = join_sp (all_text (parser_init\<lparr>all_text := [doc4]\<rparr>))" by simp
  have e3: "extract_month_year basic doc3 =
        Inr (Some 3, Some (2000 + 10 * int 2 + int 4), Some [1052, 1072, 1088, 1090])"
    using C4_year_in_window[OF doc3_a doc3_p b3 doc3_f refl] s3 d2 d4 min3 by blast
  have e4: "extract_month_year basic doc4 = Inr (Some 3, None, Some [1052, 1072, 1088, 1090])"
    using C4_year_in_window[OF doc4_a doc4_p b4 doc4_f refl] no4 by blast
  have min3': "\<nexists>u' c' d' v'. ?w3 = u' @ [50, 48, c', d'] @ v' \<and>
        decimal basic c' \<noteq> None \<and> decimal basic d' \<noteq> None \<and>
        length u' < length [1080, 1102, 1083, 1100, 32::nat]"
  proof
    assume "\<exists>u' c' d' v'. ?w3 = u' @ [50, 48, c', d'] @ v' \<and>
        decimal basic c' \<noteq> None \<and> decimal basic d' \<noteq> None \<and>
        length u' < length [1080, 1102, 1083, 1100, 32::nat]"
    then obtain u' c' d' v' where h: "?w3 = u' @ [50, 48, c', d'] @ v'"
      "decimal basic c' \<noteq> None" "decimal basic d' \<noteq> None"
      "length u' < length [1080, 1102, 1083, 1100, 32::nat]" by blast
    from min3[rule_format, of u' c' d' v'] h show False by simp
  qed
  have no4': "\<nexists>u c d v. ?w4 = u @ [50, 48, c, d] @ v \<and>
        decimal basic c \<noteq> None \<and> decimal basic d \<noteq> None"
  proof
    assume "\<exists>u c d v. ?w4 = u @ [50, 48, c, d] @ v \<and>
        decimal basic c \<noteq> None \<and> decimal basic d \<noteq> None"
    then obtain u c d v where h: "?w4 = u @ [50, 48, c, d] @ v"
      "decimal basic c \<noteq> None" "decimal basic d \<noteq> None" by blast
    from no4[rule_format, OF h(1)] h(2,3) show False by simp
  qed
  from doc3_a doc3_p b3 doc3_f s3 d2 d4 min3' e3 doc4_a doc4_p b4 doc4_f no4' e4 show ?thesis by blast
qed

text \<open>
  C5. For a document whose trimmed title is not empty, the name is taken from the leftmost
  place of the title at which the trailing pattern begins: a separator, any whitespace
  (none is required: the pattern has \<open>\s*\<close>), a capital letter of the class that the
  pattern lists, which is \<open>A\<close> to \<open>Z\<close>, the Russian capitals U+0410 to U+042F and U+0401,
  and no other letter, and at least two more characters other than \<open>|\<close>, \<open><\<close>, \<open>>\<close>,
  \<open>(\<close>, \<open>)\<close> up to the end. The name is then the text from the capital letter to the
  end, trimmed. When the pattern begins nowhere in the title, the name is the whole
  trimmed title.
\<close>

theorem C5_title_name:
  assumes "parse R text = Inr ps"
    and "title = strip (join_sp (title_text ps))" and "title \<noteq> []"
  shows "extract_name_from_html R text =
     Inr (case find (trailing_pattern 0) (tails title) of
            None \<Rightarrow> Some title
          | Some v \<Rightarrow> Some (strip (dropWhile is_space (tl v))))"
  using assms
  by (simp add: extract_name_from_html_def Let_def re_search_def title_search split: option.splits)

theorem C5_title_name_witness:
  "parse basic (asc ''<title>Monthly Report: Ivanov Petrov</title>'') =
     Inr (parser_init\<lparr>title_text := [asc ''Monthly Report: Ivanov Petrov''],
                      all_text := [asc ''Monthly Report: Ivanov Petrov'']\<rparr>) \<and>
   strip (join_sp [asc ''Monthly Report: Ivanov Petrov'']) \<noteq> [] \<and>
   extract_name_from_html basic (asc ''<title>Monthly Report: Ivanov Petrov</title>'')
     = Inr (Some (asc ''Ivanov Petrov'')) \<and>
   parse basic (asc ''<title>Monthly Summary</title>'') =
     Inr (parser_init\<lparr>title_text := [asc ''Monthly Summary''], all_text := [asc ''Monthly Summary'']\<rparr>) \<and>
   strip (join_sp [asc ''Monthly Summary'']) \<noteq> [] \<and>
   extract_name_from_html basic (asc ''<title>Monthly Summary</title>'') = Inr (Some (asc ''Monthly Summary''))"
proof -
  let ?p1 = "parser_init\<lparr>title_text := [asc ''Monthly Report: Ivanov Petrov''],
                         all_text := [asc ''Monthly Report: Ivanov Petrov'']\<rparr>"
  let ?p2 = "parser_init\<lparr>title_text := [asc ''Monthly Summary''], all_text := [asc ''Monthly Summary'']\<rparr>"
  have t1: "asc ''Monthly Report: Ivanov Petrov'' = strip (join_sp (title_text ?p1))"
    using t5d' by simp
  have t2: "asc ''Monthly Summary'' = strip (join_sp (title_text ?p2))"
    using t5f' by simp
  have n1: "asc ''Monthly Report: Ivanov Petrov'' \<noteq> []" by (simp add: asc_def)
  have n2: "asc ''Monthly Summary'' \<noteq> []" by (simp add: asc_def)
  have s: "strip (dropWhile is_space (tl (asc '': Ivanov Petrov''))) = asc ''Ivanov Petrov''"
    by (simp add: asc_def strip_def is_space_def)
  have e1: "extract_name_from_html basic (asc ''<title>Monthly Report: Ivanov Petrov</title>'')
     = Inr (Some (asc ''Ivanov Petrov''))"
    using C5_title_name[OF t5d t1 n1] unfolding t5e by (simp add: s)
  have e2: "extract_name_from_html basic (asc ''<title>Monthly Summary</title>'') = Inr (Some (asc ''Monthly Summary''))"
    using C5_title_name[OF t5f t2 n2] unfolding t5g by simp
  have m1: "strip (join_sp [asc ''Monthly Report: Ivanov Petrov'']) \<noteq> []"
    unfolding t5d' by (rule n1)
  have m2: "strip (join_sp [asc ''Monthly Summary'']) \<noteq> []"
    unfolding t5f' by (rule n2)
  from t5d m1 e1 t5f m2 e2 show ?thesis by blast
qed

text \<open>
  With whitespace required after the separator, as the specification words it, the title
  "E-Commerce" has no trailing pattern and would be returned whole; the source returns
  "Commerce". And the title "Rapport: Ecole Normale", whose last two words begin with the
  capital Latin letter U+00C9 after a colon and a space, is returned whole: that letter is
  not in the class of the pattern.
\<close>

theorem C5_title_name_counterexample:
  "parse basic (asc ''<title>E-Commerce</title>'') =
     Inr (parser_init\<lparr>title_text := [asc ''E-Commerce''], all_text := [asc ''E-Commerce'']\<rparr>) \<and>
   strip (join_sp [asc ''E-Commerce'']) = asc ''E-Commerce'' \<and>
   find (trailing_pattern 1) (tails (asc ''E-Commerce'')) = None \<and>
   extract_name_from_html basic (asc ''<title>E-Commerce</title>'') = Inr (Some (asc ''Commerce'')) \<and>
   extract_name_from_html basic (asc ''<title>E-Commerce</title>'') \<noteq> Inr (Some (asc ''E-Commerce'')) \<and>
   title5 = asc ''Rapport: '' @ [201] @ asc ''cole Normale'' \<and> \<not> is_capital 201 \<and>
   extract_name_from_html basic doc5 = Inr (Some title5) \<and>
   extract_name_from_html basic doc5 \<noteq> Inr (Some ([201] @ asc ''cole Normale''))"
proof -
  have c: "\<not> is_capital 201" by (simp add: is_capital_def)
  have d: "title5 \<noteq> [201] @ asc ''cole Normale''" by (simp add: title5_def asc_def)
  have e: "extract_name_from_html basic (asc ''<title>E-Commerce</title>'') = Inr (Some (asc ''Commerce''))"
    using t5c
    by (simp add: extract_name_from_html_def Let_def t5a t5a' re_search_def title_search)
       (simp add: asc_def strip_def is_space_def)
  moreover have "asc ''Commerce'' \<noteq> asc ''E-Commerce''" by (simp add: asc_def)
  ultimately show ?thesis using t5a t5a' t5b c d t5j title5_def by simp
qed

text \<open>
  C6. On a document that the tokenizer scans without an exception, when the stem of the
  file name has a character that is neither an underscore, a hyphen, a full stop nor
  whitespace, the display name, after the collapsing of whitespace and the trimming that
  \<open>main\<close> applies, is not empty, whichever rule gave the name: the title, the segment
  captured at the end of the title, the heading or the file name. When the tokenizer
  raises, no name is made: the exception leaves \<open>main\<close>. The case mapping of the runtime
  is assumed not to turn a character that is not whitespace into whitespace.
\<close>

theorem C6_name_not_empty:
  assumes "\<exists>c\<in>set stem. \<not> is_sep c \<and> \<not> is_space c"
    and "\<forall>s. (\<exists>c\<in>set s. \<not> is_space c) \<longrightarrow> (\<exists>c\<in>set (str_capitalize R s). \<not> is_space c)"
  shows "(feed R text \<noteq> None \<longrightarrow> (\<exists>n. display_name R text stem = Inr n \<and> n \<noteq> [])) \<and>
         (feed R text = None \<longrightarrow> display_name R text stem = Inl FeedError)"
proof (intro conjI impI)
  assume "feed R text = None"
  then have "parse R text = Inl FeedError" by (simp add: parse_def)
  then show "display_name R text stem = Inl FeedError"
    by (simp add: display_name_def extract_name_from_html_def)
next
  assume ret: "feed R text \<noteq> None"
  have fallback: "\<exists>x\<in>set (humanize_from_filename R stem). \<not> is_space x"
  proof -
    from assms(1) obtain c where c: "c \<in> set stem" "\<not> is_sep c" "\<not> is_space c" by blast
    from split_runs_cover[of False "[]" c stem is_sep] c obtain part where
      p: "part \<in> set (re_split_runs is_sep stem)" "c \<in> set part"
      by (auto simp: re_split_runs_def)
    then have pn: "part \<noteq> []" by auto
    from assms(2) p(2) c(3) obtain d where d: "d \<in> set (str_capitalize R part)" "\<not> is_space d"
      by blast
    have "str_capitalize R part \<in> set (map (str_capitalize R) (filter (\<lambda>s. s \<noteq> []) (re_split_runs is_sep stem)))"
      using p(1) pn by simp
    from join_sp_keeps[OF this] d show ?thesis
      by (auto simp: humanize_from_filename_def Let_def)
  qed
  obtain found where f: "extract_name_from_html R text = Inr found"
  proof (cases "extract_name_from_html R text")
    case (Inl e)
    then have "feed R text = None" unfolding extract_name_Inl by (rule conjunct2)
    with ret show ?thesis by (rule notE)
  next
    case (Inr found)
    then show ?thesis by (rule that)
  qed
  show "\<exists>n. display_name R text stem = Inr n \<and> n \<noteq> []"
  proof (cases found)
    case None
    have "display_name R text stem = Inr (strip (collapse_ws False (humanize_from_filename R stem)))"
      unfolding display_name_def f None by simp
    with post_nonempty[OF fallback] show ?thesis by simp
  next
    case (Some n)
    show ?thesis
    proof (cases "n = []")
      case True
      have "display_name R text stem = Inr (strip (collapse_ws False (humanize_from_filename R stem)))"
        unfolding display_name_def f Some True by simp
      with post_nonempty[OF fallback] show ?thesis by simp
    next
      case False
      have "display_name R text stem = Inr (strip (collapse_ws False n))"
        unfolding display_name_def f Some using False by simp
      with post_nonempty[OF extract_name_nonblank[OF f[unfolded Some]]] show ?thesis by simp
    qed
  qed
qed

theorem C6_name_not_empty_witness:
  "(\<exists>c\<in>set (asc ''report_2025_07''). \<not> is_sep c \<and> \<not> is_space c) \<and>
   (\<nexists>s. (\<exists>c\<in>set s. \<not> is_space c) \<and> \<not> (\<exists>c\<in>set (str_capitalize basic s). \<not> is_space c)) \<and>
   feed basic [] \<noteq> None \<and>
   (\<exists>n. display_name basic [] (asc ''report_2025_07'') = Inr n \<and> n \<noteq> []) \<and>
   feed basic (asc ''<title>E-Commerce</title>'') \<noteq> None \<and>
   (\<exists>n. display_name basic (asc ''<title>E-Commerce</title>'') (asc ''report_2025_07'') = Inr n \<and> n \<noteq> []) \<and>
   feed (basic\<lparr>feed := (\<lambda>s. None)\<rparr>) [] = None \<and>
   display_name (basic\<lparr>feed := (\<lambda>s. None)\<rparr>) [] (asc ''report_2025_07'') = Inl FeedError"
proof -
  let ?stem = "asc ''report_2025_07''"
  let ?page = "asc ''<title>E-Commerce</title>''"
  let ?mute = "basic\<lparr>feed := (\<lambda>s. None)\<rparr>"
  have a: "\<exists>c\<in>set ?stem. \<not> is_sep c \<and> \<not> is_space c"
    by (simp add: asc_def is_sep_def is_space_def)
  have b: "\<nexists>s. (\<exists>c\<in>set s. \<not> is_space c) \<and>
             \<not> (\<exists>c\<in>set (str_capitalize basic s). \<not> is_space c)"
    using basic_capitalize_nonblank by blast
  have r1: "feed basic [] \<noteq> None" by (simp add: basic_def)
  have r2: "feed basic ?page \<noteq> None" by (simp add: basic_def)
  have c': "\<forall>s. (\<exists>c\<in>set s. \<not> is_space c) \<longrightarrow>
      (\<exists>c\<in>set (str_capitalize ?mute s). \<not> is_space c)"
    using basic_capitalize_nonblank by simp
  have n: "feed ?mute [] = None" by simp
  note t1 = C6_name_not_empty[OF a basic_capitalize_nonblank, of "[]"]
  note t2 = C6_name_not_empty[OF a basic_capitalize_nonblank, of ?page]
  note t3 = C6_name_not_empty[OF a c', of "[]"]
  have 1: "\<exists>n. display_name basic [] ?stem = Inr n \<and> n \<noteq> []"
    using t1[THEN conjunct1] r1 by (rule mp)
  have 2: "\<exists>n. display_name basic ?page ?stem = Inr n \<and> n \<noteq> []"
    using t2[THEN conjunct1] r2 by (rule mp)
  have 3: "display_name ?mute [] ?stem = Inl FeedError"
    using t3[THEN conjunct2] n by (rule mp)
  show ?thesis
    apply (intro conjI)
           apply (rule a)
          apply (rule b)
         apply (rule r1)
        apply (rule 1)
       apply (rule r2)
      apply (rule 2)
     apply (rule n)
    apply (rule 3)
    done
qed

text \<open>
  A stem made of one space has a character that is not a separator, and with no title
  and no heading the display name is empty: the space is capitalised, kept as the only
  segment, and trimmed away by \<open>main\<close>.
\<close>

theorem C6_name_not_empty_counterexample:
  "\<not> is_sep 32 \<and> display_name basic [] [32] = Inr []"
proof -
  have "extract_name_from_html basic [] = Inr None"
    by (rule no_buffers_no_name[OF empty7]) (simp_all add: parser_init_def)
  then show ?thesis
    by (simp add: display_name_def humanize_from_filename_def re_split_runs_def is_sep_def
        basic_def basic_capitalize_def basic_upper_def strip_def is_space_def)
qed

text \<open>
  C7. When the tokenizer has returned and the title buffer and the heading buffer are both
  empty, no name comes from the markup and the name is made from the stem of the file name: the stem is cut at the
  runs of underscore, hyphen and full stop, every non-empty segment goes through
  \<open>str.capitalize\<close> (first character to upper case, the others to lower case), and the
  segments are joined with single spaces. The stem "report_2025_07" gives
  "Report 2025 07".
\<close>

theorem C7_name_from_filename:
  assumes "parse R text = Inr ps" and "title_text ps = []" and "h1_text ps = []"
  shows "extract_name_from_html R text = Inr None \<and>
         humanize_from_filename R stem = join_sp (map (str_capitalize R) (segments stem)) \<and>
         display_name R text stem = Inr (strip (collapse_ws False (humanize_from_filename R stem)))"
  using assms by (simp add: no_buffers_no_name humanize_segments display_name_def)

theorem C7_name_from_filename_witness:
  "parse basic [] = Inr parser_init \<and>
   title_text parser_init = [] \<and> h1_text parser_init = [] \<and>
   humanize_from_filename basic (asc ''report_2025_07'') = asc ''Report 2025 07'' \<and>
   display_name basic [] (asc ''report_2025_07'') = Inr (asc ''Report 2025 07'')"
proof -
  note c = C7_name_from_filename[OF empty7 init7, of "asc ''report_2025_07''", unfolded seg7 hum7]
  from c have h: "humanize_from_filename basic (asc ''report_2025_07'') = asc ''Report 2025 07''"
    by blast
  from c have "display_name basic [] (asc ''report_2025_07'') =
      Inr (strip (collapse_ws False (humanize_from_filename basic (asc ''report_2025_07''))))" by blast
  then have d: "display_name basic [] (asc ''report_2025_07'') = Inr (asc ''Report 2025 07'')"
    unfolding h post7 .
  from empty7 init7 h d show ?thesis by blast
qed

text \<open>
  Capitalising the first letter only, as the specification words the step, the stem
  "my_REPORT" would give "My REPORT"; the source gives "My Report".
\<close>

theorem C7_name_from_filename_counterexample:
  "join_sp (map capitalize_first (segments (asc ''my_REPORT''))) = asc ''My REPORT'' \<and>
   humanize_from_filename basic (asc ''my_REPORT'') = asc ''My Report'' \<and>
   humanize_from_filename basic (asc ''my_REPORT'') \<noteq>
     join_sp (map capitalize_first (segments (asc ''my_REPORT'')))"
proof -
  have a: "join_sp (map capitalize_first (segments (asc ''my_REPORT''))) = asc ''My REPORT''"
    unfolding seg7c by (simp add: asc_def capitalize_first_def basic_upper_def)
  have b: "humanize_from_filename basic (asc ''my_REPORT'') = asc ''My Report''"
    unfolding humanize_segments seg7c
    by (simp add: asc_def basic_def basic_capitalize_def basic_upper_def basic_lower_def)
  have c: "asc ''My Report'' \<noteq> asc ''My REPORT''" by (simp add: asc_def)
  from a b c show ?thesis by simp
qed

text \<open>
  C9. The metadata check recognises the tag exactly when, somewhere in the raw text, the
  word \<open><meta\<close> is followed by whitespace, the \<open>name\<close> attribute with the value
  \<open>report-month\<close>, whitespace alone, and the \<open>content\<close> attribute with a value of the
  form YYYY-MM. A text in which this shape does not occur, such as a tag with the two
  attributes in the opposite order or with another attribute between them, is not
  recognised, and the period is the one that the search in the visible text gives.
\<close>

theorem C9_name_before_content:
  "(re_search R True meta_rx text \<noteq> None \<longleftrightarrow> (\<exists>k. tag_shape R (drop k text))) \<and>
   ((\<nexists>k. tag_shape R (drop k text)) \<longrightarrow>
      extract_month_year R text = heuristic_month_year R text)"
proof (intro conjI impI)
  show "re_search R True meta_rx text \<noteq> None \<longleftrightarrow> (\<exists>k. tag_shape R (drop k text))"
    by (rule meta_search_iff_shape)
next
  assume "\<nexists>k. tag_shape R (drop k text)"
  then have "re_search R True meta_rx text = None" using meta_search_iff_shape[of R "text"] by blast
  then show "extract_month_year R text = heuristic_month_year R text"
    by (simp add: extract_month_year_def)
qed

theorem C9_name_before_content_witness:
  "(\<nexists>k. tag_shape basic (drop k doc9a)) \<and>
   extract_month_year basic doc9a = heuristic_month_year basic doc9a \<and>
   extract_month_year basic doc9a = Inr (Some 3, Some 2024, Some [1052, 1072, 1088, 1090]) \<and>
   (\<nexists>k. tag_shape basic (drop k doc9b)) \<and>
   extract_month_year basic doc9b = heuristic_month_year basic doc9b \<and>
   extract_month_year basic doc9b = Inr (Some 3, Some 2024, Some [1052, 1072, 1088, 1090])"
proof -
  have na: "\<nexists>k. tag_shape basic (drop k doc9a)"
    using doc9a_n meta_search_iff_shape[of basic doc9a] by simp
  have nb: "\<nexists>k. tag_shape basic (drop k doc9b)"
    using doc9b_n meta_search_iff_shape[of basic doc9b] by simp
  have ea: "extract_month_year basic doc9a = heuristic_month_year basic doc9a"
    using C9_name_before_content[of basic doc9a] na by blast
  have eb: "extract_month_year basic doc9b = heuristic_month_year basic doc9b"
    using C9_name_before_content[of basic doc9b] nb by blast
  have ha: "heuristic_month_year basic doc9a = Inr (Some 3, Some 2024, Some [1052, 1072, 1088, 1090])"
    by (rule heuristic_eval[OF doc9a_p blob9 blob9_f blob9_sl blob9_y year_2024])
  have hb: "heuristic_month_year basic doc9b = Inr (Some 3, Some 2024, Some [1052, 1072, 1088, 1090])"
    by (rule heuristic_eval[OF doc9b_p blob9 blob9_f blob9_sl blob9_y year_2024])
  from na nb ea eb ha hb show ?thesis by simp
qed

text \<open>
  C10. When a text chunk that is not blank arrives while the parser is inside a title
  element and inside an h1 element at once, the trimmed chunk is appended to the title
  buffer and to the heading buffer, and once to the buffer of all text: the two flags are
  independent of each other.
\<close>

theorem C10_both_buffers:
  assumes "p = run_events R parser_init evs"
    and "in_title p" and "in_h1 p" and "strip d \<noteq> []"
  shows "title_text (run_events R parser_init (evs @ [Data d])) = title_text p @ [strip d] \<and>
         h1_text (run_events R parser_init (evs @ [Data d])) = h1_text p @ [strip d] \<and>
         all_text (run_events R parser_init (evs @ [Data d])) = all_text p @ [strip d]"
  using assms by (simp add: run_events_snoc handle_data_def Let_def)

theorem C10_both_buffers_witness:
  "in_title (run_events basic parser_init [StartTag (asc ''h1''), StartTag (asc ''title'')]) \<and>
   in_h1 (run_events basic parser_init [StartTag (asc ''h1''), StartTag (asc ''title'')]) \<and>
   strip (asc '' x '') \<noteq> [] \<and>
   title_text (run_events basic parser_init
      ([StartTag (asc ''h1''), StartTag (asc ''title'')] @ [Data (asc '' x '')])) = [asc ''x''] \<and>
   h1_text (run_events basic parser_init
      ([StartTag (asc ''h1''), StartTag (asc ''title'')] @ [Data (asc '' x '')])) = [asc ''x''] \<and>
   all_text (run_events basic parser_init
      ([StartTag (asc ''h1''), StartTag (asc ''title'')] @ [Data (asc '' x '')])) = [asc ''x'']"
proof -
  let ?evs = "[StartTag (asc ''h1''), StartTag (asc ''title'')]"
  let ?p = "run_events basic parser_init ?evs"
  have p: "?p = \<lparr>in_title = True, in_h1 = True, title_text = [], h1_text = [], all_text = []\<rparr>"
    by (simp add: run_events_def handle_starttag_def parser_init_def basic_def asc_def basic_lower_def)
  have s: "strip (asc '' x '') = asc ''x''"
    by (simp add: strip_def asc_def is_space_def)
  have a: "in_title ?p" and b: "in_h1 ?p" using p by simp_all
  have c: "strip (asc '' x '') \<noteq> []" using s by (simp add: asc_def)
  from C10_both_buffers[OF refl a b c] p s a b c show ?thesis by simp
qed

end
